theory Spec2Isabelle
  imports Main "HOL-Library.Word"
begin

unbundle bit_operations_syntax

section \<open>Object model\<close>

text \<open>
  The target is an AVR128DA48: \<open>int\<close>, \<open>unsigned int\<close>, \<open>uintptr_t\<close> and every
  \<open>object *\<close> are 16 bits wide.  An \<open>object\<close> is the four-byte union of the source:
  \<open>car\<close> overlays \<open>type\<close>, and \<open>cdr\<close> overlays \<open>name\<close>, \<open>integer\<close> and \<open>chars\<close>.
\<close>

type_synonym ptr = "16 word"

record sobject =
  car :: "16 word"
  cdr :: "16 word"

text \<open>\<open>enum type\<close>\<close>

abbreviation (input) ZZERO :: "16 word" where "ZZERO \<equiv> 0"
abbreviation (input) SYMBOL :: "16 word" where "SYMBOL \<equiv> 2"
abbreviation (input) NUMBER :: "16 word" where "NUMBER \<equiv> 6"
abbreviation (input) STREAM :: "16 word" where "STREAM \<equiv> 8"
abbreviation (input) CHARACTER :: "16 word" where "CHARACTER \<equiv> 10"
abbreviation (input) ARRAY :: "16 word" where "ARRAY \<equiv> 12"
abbreviation (input) STRING :: "16 word" where "STRING \<equiv> 14"
abbreviation (input) PAIR :: "16 word" where "PAIR \<equiv> 16"

abbreviation (input) MARKBIT :: "16 word" where "MARKBIT \<equiv> 1"

text \<open>The first entries of \<open>enum builtins\<close>.\<close>

abbreviation (input) NIL :: "16 word" where "NIL \<equiv> 0"
abbreviation (input) TEE :: "16 word" where "TEE \<equiv> 1"

definition SDSIZE :: nat where
  "SDSIZE = 0"

definition WORKSPACESIZE :: nat where
  "WORKSPACESIZE = 2800 - SDSIZE"

text \<open>
  The memory is a map from addresses to objects.  The address \<open>W\<close> at which the linker
  places the array \<open>Workspace\<close> is not fixed by the source, so it is a parameter of
  every function that indexes the array; \<open>obj_addr W i\<close> is \<open>&Workspace[i]\<close>.
\<close>

type_synonym memory = "ptr \<Rightarrow> sobject"

definition obj_addr :: "ptr \<Rightarrow> nat \<Rightarrow> ptr" where
  "obj_addr W i = W + 4 * of_nat i"

text \<open>
  \<open>in_ws W p\<close>: \<open>p\<close> is the address of an object of \<open>Workspace\<close>: object-aligned, a whole
  number of objects after \<open>W\<close>, and below the end of the array.
\<close>

definition in_ws :: "ptr \<Rightarrow> ptr \<Rightarrow> bool" where
  "in_ws W p = (p AND 3 = 0 \<and> (p - W) AND 3 = 0 \<and> unat (p - W) < 4 * WORKSPACESIZE)"

text \<open>
  What the toolchain guarantees of \<open>Workspace\<close>: it is \<open>OBJECTALIGNED\<close>, it lies within
  the 16-bit address space, and no object address is a type tag (an address is at least
  \<open>PAIR\<close>; in particular it is not \<open>NULL\<close>).
\<close>

definition ws_ok :: "ptr \<Rightarrow> bool" where
  "ws_ok W = (W AND 3 = 0 \<and> 16 \<le> unat W \<and> unat W + 4 * WORKSPACESIZE \<le> 65536)"

text \<open>The global variables the modelled functions read or write.\<close>

record lisp_state =
  heap :: memory
  Freespace :: "16 word"
  Freelist :: ptr
  Context :: "16 word"
  GlobalEnv :: ptr
  GCStack :: ptr
  tee :: ptr
  Flags :: "8 word"
  LastChar :: "8 word"
  GlobalStringIndex :: "16 word"
  TraceFn :: "nat \<Rightarrow> 16 word"

text \<open>
  An error is a \<open>longjmp\<close> to the handler: the function does not return.  \<open>Err\<close> carries
  the message and the state at the jump.  \<open>Unmodelled\<close> marks a call that leaves the part
  of the interpreter embedded here (arrays, streams, machine code, most built-in
  functions); nothing is proved about such a call.
\<close>

datatype 'a result = Err string lisp_state | Ok 'a lisp_state | Unmodelled string

definition errorend :: "string \<Rightarrow> lisp_state \<Rightarrow> 'a result" where
  "errorend msg s = Err msg (s\<lparr>GCStack := 0\<rparr>)"

definition error2 :: "string \<Rightarrow> lisp_state \<Rightarrow> 'a result" where
  "error2 msg s = errorend msg s"

definition error :: "string \<Rightarrow> ptr \<Rightarrow> lisp_state \<Rightarrow> 'a result" where
  "error msg symbol s = errorend msg s"

section \<open>Allocator\<close>

fun initworkspace_loop :: "ptr \<Rightarrow> nat \<Rightarrow> lisp_state \<Rightarrow> lisp_state" where
  "initworkspace_loop W 0 s = s"
| "initworkspace_loop W (Suc i) s =
     initworkspace_loop W i
       (let obj = obj_addr W i in
        s\<lparr>heap := (heap s)(obj := \<lparr>car = 0, cdr = Freelist s\<rparr>),
          Freelist := obj,
          Freespace := Freespace s + 1\<rparr>)"

definition initworkspace :: "ptr \<Rightarrow> lisp_state \<Rightarrow> lisp_state" where
  "initworkspace W s = initworkspace_loop W WORKSPACESIZE (s\<lparr>Freelist := 0\<rparr>)"

definition myalloc :: "lisp_state \<Rightarrow> ptr result" where
  "myalloc s =
     (if Freespace s = 0 then error2 ''no room'' (s\<lparr>Context := NIL\<rparr>)
      else Ok (Freelist s)
             (s\<lparr>Freelist := cdr (heap s (Freelist s)), Freespace := Freespace s - 1\<rparr>))"

definition myfree :: "ptr \<Rightarrow> lisp_state \<Rightarrow> lisp_state" where
  "myfree obj s =
     s\<lparr>heap := (heap s)(obj := \<lparr>car = 0, cdr = Freelist s\<rparr>),
       Freelist := obj,
       Freespace := Freespace s + 1\<rparr>"

section \<open>Garbage collection\<close>

definition marked :: "memory \<Rightarrow> ptr \<Rightarrow> bool" where
  "marked h x = (car (h x) AND MARKBIT \<noteq> 0)"

definition mark :: "memory \<Rightarrow> ptr \<Rightarrow> memory" where
  "mark h x = h(x := (h x)\<lparr>car := car (h x) OR MARKBIT\<rparr>)"

definition unmark :: "memory \<Rightarrow> ptr \<Rightarrow> memory" where
  "unmark h x = h(x := (h x)\<lparr>car := car (h x) AND NOT MARKBIT\<rparr>)"

fun sweep_loop :: "ptr \<Rightarrow> nat \<Rightarrow> lisp_state \<Rightarrow> lisp_state" where
  "sweep_loop W 0 s = s"
| "sweep_loop W (Suc i) s =
     sweep_loop W i
       (let obj = obj_addr W i in
        if \<not> marked (heap s) obj then myfree obj s
        else s\<lparr>heap := unmark (heap s) obj\<rparr>)"

definition sweep :: "ptr \<Rightarrow> lisp_state \<Rightarrow> lisp_state" where
  "sweep W s = sweep_loop W WORKSPACESIZE (s\<lparr>Freelist := 0, Freespace := 0\<rparr>)"

section \<open>The free list\<close>

text \<open>
  \<open>free_chain W h p n\<close>: following \<open>cdr\<close> from \<open>p\<close> reaches \<open>NULL\<close> after exactly \<open>n\<close>
  cells, each of them an object of the workspace.  \<open>chain_cells h p n\<close> lists them.
\<close>

fun free_chain :: "ptr \<Rightarrow> memory \<Rightarrow> ptr \<Rightarrow> nat \<Rightarrow> bool" where
  "free_chain W h p 0 = (p = 0)"
| "free_chain W h p (Suc n) = (p \<noteq> 0 \<and> in_ws W p \<and> free_chain W h (cdr (h p)) n)"

fun chain_cells :: "memory \<Rightarrow> ptr \<Rightarrow> nat \<Rightarrow> ptr list" where
  "chain_cells h p 0 = []"
| "chain_cells h p (Suc n) = p # chain_cells h (cdr (h p)) n"

definition Freespace_inv :: "ptr \<Rightarrow> lisp_state \<Rightarrow> bool" where
  "Freespace_inv W s = free_chain W (heap s) (Freelist s) (unat (Freespace s))"

definition on_Freelist :: "lisp_state \<Rightarrow> ptr \<Rightarrow> bool" where
  "on_Freelist s p = (p \<in> set (chain_cells (heap s) (Freelist s) (unat (Freespace s))))"

section \<open>Concrete states\<close>

definition empty_memory :: memory where
  "empty_memory = (\<lambda>_. \<lparr>car = 0, cdr = 0\<rparr>)"

definition boot_state :: lisp_state where
  "boot_state = \<lparr>heap = empty_memory, Freespace = 0, Freelist = 0, Context = 0,
     GlobalEnv = 0, GCStack = 0, tee = 0, Flags = 1, LastChar = 0, GlobalStringIndex = 0,
     TraceFn = (\<lambda>_. 0)\<rparr>"

definition one_free_state :: lisp_state where
  "one_free_state = boot_state\<lparr>Freelist := 0x4000, Freespace := 1\<rparr>"

section \<open>Type predicates and object constructors\<close>

definition integerp :: "memory \<Rightarrow> ptr \<Rightarrow> bool" where
  "integerp h x = (x \<noteq> 0 \<and> car (h x) = NUMBER)"

definition symbolp :: "memory \<Rightarrow> ptr \<Rightarrow> bool" where
  "symbolp h x = (x \<noteq> 0 \<and> car (h x) = SYMBOL)"

definition stringp :: "memory \<Rightarrow> ptr \<Rightarrow> bool" where
  "stringp h x = (x \<noteq> 0 \<and> car (h x) = STRING)"

definition characterp :: "memory \<Rightarrow> ptr \<Rightarrow> bool" where
  "characterp h x = (x \<noteq> 0 \<and> car (h x) = CHARACTER)"

definition consp :: "memory \<Rightarrow> ptr \<Rightarrow> bool" where
  "consp h x = (if x = 0 then False else PAIR \<le> car (h x) \<or> car (h x) = ZZERO)"


definition number :: "16 word \<Rightarrow> lisp_state \<Rightarrow> ptr result" where
  "number n s =
     (case myalloc s of
        Err m s' \<Rightarrow> Err m s'
      | Unmodelled u \<Rightarrow> Unmodelled u
      | Ok p s1 \<Rightarrow> Ok p (s1\<lparr>heap := (heap s1)(p := \<lparr>car = NUMBER, cdr = n\<rparr>)\<rparr>))"

definition eq_lisp :: "memory \<Rightarrow> ptr \<Rightarrow> ptr \<Rightarrow> bool" where
  "eq_lisp h arg1 arg2 =
     (if arg1 = arg2 then True
      else if arg1 = 0 \<or> arg2 = 0 then False
      else if cdr (h arg1) \<noteq> cdr (h arg2) then False
      else if symbolp h arg1 \<and> symbolp h arg2 then True
      else if integerp h arg1 \<and> integerp h arg2 then True
      else if characterp h arg1 \<and> characterp h arg2 then True
      else False)"


definition eq_memory :: memory where
  "eq_memory = empty_memory
     (0x4000 := \<lparr>car = NUMBER, cdr = 5\<rparr>, 0x4004 := \<lparr>car = NUMBER, cdr = 5\<rparr>,
      0x4008 := \<lparr>car = CHARACTER, cdr = 97\<rparr>, 0x400C := \<lparr>car = CHARACTER, cdr = 97\<rparr>,
      0x4010 := \<lparr>car = SYMBOL, cdr = 0x1235\<rparr>, 0x4014 := \<lparr>car = SYMBOL, cdr = 0x1235\<rparr>,
      0x4018 := \<lparr>car = 0x4000, cdr = 0\<rparr>, 0x401C := \<lparr>car = 0x4000, cdr = 0\<rparr>,
      0x4020 := \<lparr>car = STRING, cdr = 0\<rparr>, 0x4024 := \<lparr>car = STRING, cdr = 0\<rparr>,
      0x4028 := \<lparr>car = NUMBER, cdr = 6\<rparr>, 0x402C := \<lparr>car = CHARACTER, cdr = 98\<rparr>,
      0x4030 := \<lparr>car = SYMBOL, cdr = 0x1239\<rparr>)"

section \<open>Arithmetic\<close>

abbreviation (input) INT_MAX :: "16 word" where "INT_MAX \<equiv> 0x7FFF"
abbreviation (input) INT_MIN :: "16 word" where "INT_MIN \<equiv> 0x8000"

definition checkinteger :: "ptr \<Rightarrow> lisp_state \<Rightarrow> (16 word) result" where
  "checkinteger obj s =
     (if \<not> integerp (heap s) obj then error ''argument is not an integer'' obj s
      else Ok (cdr (heap s obj)) s)"

text \<open>
  The loop of \<open>fn_add\<close> (\<open>checkoverflow\<close> is defined).  It follows \<open>cdr\<close> through the
  argument list and does not return on a circular one.
\<close>

partial_function (option) fn_add_loop :: "ptr \<Rightarrow> 16 word \<Rightarrow> lisp_state \<Rightarrow> (16 word) result option" where
  "fn_add_loop args result s =
     (if args = 0 then Some (Ok result s)
      else case checkinteger (car (heap s args)) s of
          Err m s' \<Rightarrow> Some (Err m s')
        | Unmodelled u \<Rightarrow> Some (Unmodelled u)
        | Ok temp s1 \<Rightarrow>
            if (if sint temp < 1 then sint result < sint (INT_MIN - temp)
                else sint (INT_MAX - temp) < sint result)
            then Some (error2 ''arithmetic overflow'' s1)
            else fn_add_loop (cdr (heap s1 args)) (result + temp) s1)"

definition fn_add :: "ptr \<Rightarrow> ptr \<Rightarrow> lisp_state \<Rightarrow> ptr result option" where
  "fn_add args env s =
     (case fn_add_loop args 0 s of
        None \<Rightarrow> None
      | Some (Err m s') \<Rightarrow> Some (Err m s')
      | Some (Unmodelled u) \<Rightarrow> Some (Unmodelled u)
      | Some (Ok result s') \<Rightarrow> Some (number result s'))"

text \<open>
  \<open>lisp_list h p xs\<close>: \<open>p\<close> is a proper list in \<open>h\<close> whose elements are the objects \<open>xs\<close>.
  \<open>sums_ok acc vs\<close>: adding \<open>vs\<close> to \<open>acc\<close> one by one never leaves the range of \<open>int\<close>.
\<close>

fun lisp_list :: "memory \<Rightarrow> ptr \<Rightarrow> ptr list \<Rightarrow> bool" where
  "lisp_list h p [] = (p = 0)"
| "lisp_list h p (x # xs) = (p \<noteq> 0 \<and> car (h p) = x \<and> lisp_list h (cdr (h p)) xs)"

definition int_range :: "int \<Rightarrow> bool" where
  "int_range v = (- 32768 \<le> v \<and> v \<le> 32767)"

fun sums_ok :: "int \<Rightarrow> int list \<Rightarrow> bool" where
  "sums_ok acc [] = True"
| "sums_ok acc (v # vs) = (int_range (acc + v) \<and> sums_ok (acc + v) vs)"

definition integer_of :: "memory \<Rightarrow> ptr \<Rightarrow> int" where
  "integer_of h x = sint (cdr (h x))"

definition add_state :: lisp_state where
  "add_state = boot_state
     \<lparr>heap := empty_memory
        (0x4000 := \<lparr>car = NUMBER, cdr = 32767\<rparr>, 0x4004 := \<lparr>car = NUMBER, cdr = 1\<rparr>,
         0x4008 := \<lparr>car = 0x4000, cdr = 0x400C\<rparr>, 0x400C := \<lparr>car = 0x4004, cdr = 0\<rparr>,
         0x4010 := \<lparr>car = 0x4004, cdr = 0x4014\<rparr>, 0x4014 := \<lparr>car = 0x4004, cdr = 0\<rparr>),
      Freelist := 0x4018, Freespace := 1\<rparr>"


section \<open>Reader\<close>

text \<open>\<open>enum flag\<close> and the flag macros.\<close>

abbreviation (input) PRINTREADABLY :: nat where "PRINTREADABLY \<equiv> 0"
abbreviation (input) NOESC :: nat where "NOESC \<equiv> 5"
abbreviation (input) NOECHO :: nat where "NOECHO \<equiv> 6"
abbreviation (input) MUFFLEERRORS :: nat where "MUFFLEERRORS \<equiv> 7"

definition setflag :: "nat \<Rightarrow> lisp_state \<Rightarrow> lisp_state" where
  "setflag x s = s\<lparr>Flags := Flags s OR push_bit x 1\<rparr>"



text \<open>\<open>enum token\<close>: the values \<open>nextitem\<close> returns cast to \<open>object *\<close>.\<close>

abbreviation (input) BRA :: ptr where "BRA \<equiv> 1"
abbreviation (input) KET :: ptr where "KET \<equiv> 2"
abbreviation (input) QUO :: ptr where "QUO \<equiv> 3"
abbreviation (input) DOT :: ptr where "DOT \<equiv> 4"

definition BUFFERSIZE :: nat where
  "BUFFERSIZE = 22"

text \<open>
  A character supplier (\<open>gfun_t\<close>) returns the next character as an \<open>int\<close>.
  \<open>glibrary\<close> reads the text \<open>LispLibrary\<close>, which is a parameter here (the source
  compiles in the empty text); \<open>char\<close> is signed, and the text ends with a NUL.
\<close>

type_synonym gfun_t = "lisp_state \<Rightarrow> int \<times> lisp_state"

definition glibrary :: "8 word list \<Rightarrow> gfun_t" where
  "glibrary LispLibrary s =
     (if LastChar s \<noteq> 0 then (sint (LastChar s), s\<lparr>LastChar := 0\<rparr>)
      else
        let i = unat (GlobalStringIndex s);
            c = (if i < length LispLibrary then LispLibrary ! i else 0);
            s' = s\<lparr>GlobalStringIndex := GlobalStringIndex s + 1\<rparr>
        in (if c \<noteq> 0 then sint c else - 1, s'))"

definition issp :: "int \<Rightarrow> bool" where
  "issp x = (x = 32 \<or> x = 10 \<or> x = 13 \<or> x = 9)"

definition isbr :: "int \<Rightarrow> bool" where
  "isbr x = (x = 41 \<or> x = 40 \<or> x = 34 \<or> x = 35)"

definition digitvalue :: "8 word \<Rightarrow> int" where
  "digitvalue d =
     (if 48 \<le> sint d \<and> sint d \<le> 57 then sint d - 48
      else let d' = d OR 0x20 in
        if 97 \<le> sint d' \<and> sint d' \<le> 102 then sint d' - 97 + 10 else 16)"

text \<open>The loops of \<open>nextitem\<close>.  Those that wait for a character may never end.\<close>

partial_function (option) nextitem_space :: "gfun_t \<Rightarrow> int \<Rightarrow> lisp_state \<Rightarrow> (int \<times> lisp_state) option" where
  "nextitem_space gfun ch s =
     (if issp ch then (case gfun s of (ch', s') \<Rightarrow> nextitem_space gfun ch' s')
      else Some (ch, s))"

partial_function (option) nextitem_comment :: "gfun_t \<Rightarrow> lisp_state \<Rightarrow> (int \<times> lisp_state) option" where
  "nextitem_comment gfun s =
     (case gfun s of (ch, s1) \<Rightarrow>
        let s2 = (if ch = 59 \<or> ch = 40 then setflag NOECHO s1 else s1)
        in if ch \<noteq> 40 then nextitem_comment gfun s2 else Some (ch, s2))"

partial_function (option) nextitem_bar :: "gfun_t \<Rightarrow> lisp_state \<Rightarrow> lisp_state option" where
  "nextitem_bar gfun s =
     (case gfun s of (ch, s1) \<Rightarrow> if ch \<noteq> 124 then nextitem_bar gfun s1 else Some s1)"

partial_function (option) nextitem_block :: "gfun_t \<Rightarrow> lisp_state \<Rightarrow> lisp_state option" where
  "nextitem_block gfun s =
     Option.bind (nextitem_bar gfun s)
       (\<lambda>s1. case gfun s1 of (ch, s2) \<Rightarrow> if ch \<noteq> 35 then nextitem_block gfun s2 else Some s2)"

text \<open>
  The token loop.  \<open>buffer\<close> holds the characters stored so far (\<open>index\<close> is its length),
  \<open>result\<close> is \<open>unsigned int\<close>, \<open>base\<close> is \<open>int\<close>.
\<close>

record token =
  tok_ch :: int
  tok_buffer :: "8 word list"
  tok_result :: "16 word"
  tok_isnumber :: bool

function nextitem_token :: "gfun_t \<Rightarrow> int \<Rightarrow> token \<Rightarrow> lisp_state \<Rightarrow> token \<times> lisp_state" where
  "nextitem_token gfun base t s =
     (if \<not> issp (tok_ch t) \<and> \<not> isbr (tok_ch t) \<and> length (tok_buffer t) < BUFFERSIZE - 1 then
        let c = (word_of_int (tok_ch t) :: 8 word);
            temp = digitvalue c;
            (ch', s') = gfun s
        in nextitem_token gfun base
             \<lparr>tok_ch = ch',
              tok_buffer = tok_buffer t @ [c],
              tok_result = tok_result t * word_of_int base + word_of_int temp,
              tok_isnumber = (tok_isnumber t \<and> digitvalue c < base)\<rparr> s'
      else (t, s))"
  by pat_completeness auto
termination
  by (relation "measure (\<lambda>(gfun, base, t, s). BUFFERSIZE - 1 - length (tok_buffer t))") auto

declare nextitem_token.simps [simp del]

definition character :: "8 word \<Rightarrow> lisp_state \<Rightarrow> ptr result" where
  "character c s =
     (case myalloc s of
        Err m s' \<Rightarrow> Err m s'
      | Unmodelled u \<Rightarrow> Unmodelled u
      | Ok p s1 \<Rightarrow> Ok p (s1\<lparr>heap := (heap s1)(p := \<lparr>car = CHARACTER, cdr = ucast c\<rparr>)\<rparr>))"

text \<open>
  The part of \<open>nextitem\<close> from the token loop on, for a token that starts with \<open>ch\<close>
  after \<open>buffer\<close>, in \<open>base\<close> (0 after \<open>#\\<close>) with \<open>sign\<close>.  Character names and
  symbols are handed to functions that are not embedded here.
\<close>

definition nextitem_atom ::
  "gfun_t \<Rightarrow> int \<Rightarrow> int \<Rightarrow> 8 word list \<Rightarrow> int \<Rightarrow> lisp_state \<Rightarrow> ptr result" where
  "nextitem_atom gfun base sign buffer ch s =
     (case nextitem_token gfun base
             \<lparr>tok_ch = ch, tok_buffer = buffer, tok_result = 0,
              tok_isnumber = (digitvalue (word_of_int ch) < base)\<rparr> s
      of (t, s') \<Rightarrow>
        let s'' = (if isbr (tok_ch t) then s'\<lparr>LastChar := word_of_int (tok_ch t)\<rparr> else s') in
        if tok_isnumber t then
          if base = 10 \<and> tok_result t > INT_MAX + word_of_int ((1 - sign) div 2)
          then error2 ''Number out of range'' s''
          else number (tok_result t * word_of_int sign) s''
        else if base = 0 then Unmodelled ''character name''
        else Unmodelled ''symbol'')"

text \<open>
  \<open>nextitem\<close>.  Strings, \<open>#.\<close>, array and bit-array literals are handed to functions
  that are not embedded here.
\<close>

partial_function (option) nextitem :: "gfun_t \<Rightarrow> lisp_state \<Rightarrow> ptr result option" where
  "nextitem gfun s0 =
     (case gfun s0 of (ch0, s1) \<Rightarrow>
      Option.bind (nextitem_space gfun ch0 s1) (\<lambda>(ch1, s2).
      Option.bind (if ch1 = 59 then nextitem_comment gfun s2 else Some (ch1, s2)) (\<lambda>(ch2, s3).
      case (if ch2 = 10 then gfun s3 else (ch2, s3)) of (ch, s) \<Rightarrow>
      if ch = - 1 then Some (Ok 0 s)
      else if ch = 41 then Some (Ok KET s)
      else if ch = 40 then Some (Ok BRA s)
      else if ch = 39 then Some (Ok QUO s)
      else if ch = 46 then Some (Ok DOT s)
      else if ch = 34 then Some (Unmodelled ''readstring'')
      else if ch = 43 \<or> ch = 45 then
        (case gfun s of (ch', s') \<Rightarrow>
           Some (nextitem_atom gfun 10 (if ch = 45 then - 1 else 1) [word_of_int ch] ch' s'))
      else if ch = 35 then
        (case gfun s of (ch, s) \<Rightarrow>
           let ch2 = (word_of_int ch AND NOT 0x20 :: 8 word) in
           if ch = 92 then
             (case gfun s of (ch, s) \<Rightarrow>
                if issp ch \<or> isbr ch then Some (character (word_of_int ch) s)
                else (case gfun (s\<lparr>LastChar := word_of_int ch\<rparr>) of (ch, s) \<Rightarrow>
                        Some (nextitem_atom gfun 0 1 [] ch s)))
           else if ch = 124 then Option.bind (nextitem_block gfun s) (nextitem gfun)
           else if ch2 = 66 then (case gfun s of (ch, s) \<Rightarrow> Some (nextitem_atom gfun 2 1 [] ch s))
           else if ch2 = 79 then (case gfun s of (ch, s) \<Rightarrow> Some (nextitem_atom gfun 8 1 [] ch s))
           else if ch2 = 88 then (case gfun s of (ch, s) \<Rightarrow> Some (nextitem_atom gfun 16 1 [] ch s))
           else if ch = 39 then nextitem gfun s
           else if ch = 46 then Some (Unmodelled ''read-time evaluation'')
           else if ch = 40 then Some (Unmodelled ''readarray'')
           else if ch = 42 then Some (Unmodelled ''readbitarray'')
           else if 49 \<le> ch \<and> ch \<le> 57 then
             (case gfun s of (a, s) \<Rightarrow>
                if (word_of_int a AND NOT 0x20 :: 16 word) = 65 then Some (Unmodelled ''readarray'')
                else Some (error2 ''illegal character after #'' s))
           else Some (error2 ''illegal character after #'' s))
      else Some (nextitem_atom gfun 10 1 [] ch s))))"

text \<open>
  Specification vocabulary for the reader: the text at which the supplier stands, the
  state after a token has been taken, and the value of a digit string.
\<close>

definition at_input :: "8 word list \<Rightarrow> lisp_state \<Rightarrow> 8 word list \<Rightarrow> bool" where
  "at_input lib s txt =
     (LastChar s = 0 \<and> 0 \<notin> set txt \<and>
      unat (GlobalStringIndex s) + length txt < 32768 \<and>
      take (length txt) (drop (unat (GlobalStringIndex s)) lib) = txt)"

definition consumed :: "lisp_state \<Rightarrow> nat \<Rightarrow> 8 word \<Rightarrow> lisp_state" where
  "consumed s n t =
     s\<lparr>GlobalStringIndex := GlobalStringIndex s + of_nat n,
       LastChar := (if isbr (sint t) then t else 0)\<rparr>"

definition digits_value :: "int \<Rightarrow> 8 word list \<Rightarrow> int" where
  "digits_value base ds = foldl (\<lambda>v d. v * base + digitvalue d) 0 ds"

definition digits_of :: "int \<Rightarrow> 8 word list \<Rightarrow> bool" where
  "digits_of base ds = (ds \<noteq> [] \<and> (\<forall>d\<in>set ds. digitvalue d < base))"

definition radix_of :: "8 word \<Rightarrow> int" where
  "radix_of x =
     (let ch2 = x AND NOT 0x20 in
      if ch2 = 66 then 2 else if ch2 = 79 then 8 else if ch2 = 88 then 16 else 0)"


section \<open>Addresses of the workspace\<close>

lemma and3_dvd: "((d::16 word) AND 3 = 0) = (4 dvd unat d)"
proof -
  have "(3::16 word) = mask 2" by (simp add: mask_eq_exp_minus_1)
  then show ?thesis using and_mask_dvd_nat [of 2 d] by simp
qed

lemma unat_4k: "k < 16384 \<Longrightarrow> unat (4 * of_nat k :: 16 word) = 4 * k"
proof -
  assume k: "k < 16384"
  have "(4 * of_nat k :: 16 word) = of_nat (4 * k)" by simp
  then have "unat (4 * of_nat k :: 16 word) = (4 * k) mod 2 ^ 16"
    by (simp only: unat_of_nat) simp
  then show ?thesis using k by simp
qed

lemma in_ws_imp: "in_ws W p \<Longrightarrow> \<exists>i<WORKSPACESIZE. p = obj_addr W i"
proof -
  assume a: "in_ws W p"
  let ?d = "p - W"
  have d3: "4 dvd unat ?d" and dlt: "unat ?d < 4 * WORKSPACESIZE"
    using a by (auto simp: in_ws_def and3_dvd)
  then obtain k where k: "unat ?d = 4 * k" by (auto simp: dvd_def)
  have klt: "k < WORKSPACESIZE" using k dlt by simp
  have "?d = of_nat (unat ?d)" by simp
  also have "\<dots> = 4 * of_nat k" by (simp only: k) simp
  finally have "p = W + 4 * of_nat k" by (simp add: algebra_simps)
  then show "\<exists>i<WORKSPACESIZE. p = obj_addr W i" using klt by (auto simp: obj_addr_def)
qed

lemma obj_addr_inj: "i < WORKSPACESIZE \<Longrightarrow> j < WORKSPACESIZE \<Longrightarrow> obj_addr W i = obj_addr W j \<Longrightarrow> i = j"
proof -
  assume i: "i < WORKSPACESIZE" and j: "j < WORKSPACESIZE" and e: "obj_addr W i = obj_addr W j"
  have i2: "i < 16384" and j2: "j < 16384" using i j by (simp_all add: WORKSPACESIZE_def SDSIZE_def)
  from e have "(4 * of_nat i :: 16 word) = 4 * of_nat j" by (simp add: obj_addr_def)
  then have "unat (4 * of_nat i :: 16 word) = unat (4 * of_nat j :: 16 word)" by simp
  then show "i = j" using unat_4k [OF i2] unat_4k [OF j2] by simp
qed

lemma unat_obj_addr: "ws_ok W \<Longrightarrow> i < WORKSPACESIZE \<Longrightarrow> unat (obj_addr W i) = unat W + 4 * i"
proof -
  assume w: "ws_ok W" and i: "i < WORKSPACESIZE"
  have i2: "i < 16384" using i by (simp add: WORKSPACESIZE_def SDSIZE_def)
  have "unat W + unat (4 * of_nat i :: 16 word) < 2 ^ 16"
    using w i unat_4k [OF i2] by (simp add: ws_ok_def)
  then have "unat (W + 4 * of_nat i) = unat W + unat (4 * of_nat i :: 16 word)"
    using unat_add_lem [of W "4 * of_nat i"] by simp
  then show ?thesis using unat_4k [OF i2] by (simp add: obj_addr_def)
qed

lemma obj_addr_in_ws: "ws_ok W \<Longrightarrow> i < WORKSPACESIZE \<Longrightarrow> in_ws W (obj_addr W i)"
proof -
  assume w: "ws_ok W" and i: "i < WORKSPACESIZE"
  have i2: "i < 16384" using i by (simp add: WORKSPACESIZE_def SDSIZE_def)
  have "4 dvd unat W" using w by (simp add: ws_ok_def and3_dvd)
  then have a: "4 dvd unat (obj_addr W i)" using unat_obj_addr [OF w i] by simp
  have "obj_addr W i - W = 4 * of_nat i" by (simp add: obj_addr_def)
  then show ?thesis using unat_4k [OF i2] i a by (simp add: in_ws_def and3_dvd)
qed

lemma in_ws_iff: "ws_ok W \<Longrightarrow> in_ws W p \<longleftrightarrow> (\<exists>i<WORKSPACESIZE. p = obj_addr W i)"
  using in_ws_imp obj_addr_in_ws by blast

lemma in_ws_nonnull: "ws_ok W \<Longrightarrow> in_ws W p \<Longrightarrow> p \<noteq> 0"
proof
  assume w: "ws_ok W" and p: "in_ws W p" and z: "p = 0"
  from p obtain i where i: "i < WORKSPACESIZE" "p = obj_addr W i" using in_ws_imp by blast
  have "unat p = unat W + 4 * i" using unat_obj_addr [OF w i(1)] i(2) by simp
  then show False using z w by (simp add: ws_ok_def)
qed

section \<open>Properties of the free list\<close>

lemma free_chain_cdr_cong:
  "(\<And>q. cdr (h' q) = cdr (h q)) \<Longrightarrow> free_chain W h' p n = free_chain W h p n"
  by (induction n arbitrary: p) auto

lemma chain_cells_cdr_cong:
  "(\<And>q. cdr (h' q) = cdr (h q)) \<Longrightarrow> chain_cells h' p n = chain_cells h p n"
  by (induction n arbitrary: p) auto

lemma free_chain_unique:
  "free_chain W h p n \<Longrightarrow> free_chain W h p m \<Longrightarrow> n = m"
proof (induction n arbitrary: p m)
  case 0
  then show ?case by (cases m) auto
next
  case (Suc n)
  then show ?case by (cases m) auto
qed

lemma free_chain_suffix:
  "free_chain W h p n \<Longrightarrow> x \<in> set (chain_cells h p n) \<Longrightarrow>
   \<exists>m. 0 < m \<and> m \<le> n \<and> free_chain W h x m"
proof (induction n arbitrary: p)
  case 0
  then show ?case by simp
next
  case (Suc n)
  show ?case
  proof (cases "x = p")
    case True
    then show ?thesis using Suc.prems(1) by (intro exI [of _ "Suc n"]) simp
  next
    case False
    then have "x \<in> set (chain_cells h (cdr (h p)) n)" using Suc.prems(2) by simp
    moreover have "free_chain W h (cdr (h p)) n" using Suc.prems(1) by simp
    ultimately obtain m where "0 < m" "m \<le> n" "free_chain W h x m"
      using Suc.IH by blast
    then show ?thesis by (intro exI [of _ m]) simp
  qed
qed

lemma free_chain_distinct:
  "free_chain W h p n \<Longrightarrow> distinct (chain_cells h p n)"
proof (induction n arbitrary: p)
  case 0
  then show ?case by simp
next
  case (Suc n)
  have tl: "free_chain W h (cdr (h p)) n" using Suc.prems by simp
  have "p \<notin> set (chain_cells h (cdr (h p)) n)"
  proof
    assume "p \<in> set (chain_cells h (cdr (h p)) n)"
    then obtain m where m: "m \<le> n" "free_chain W h p m"
      using free_chain_suffix [OF tl] by blast
    then have "m = Suc n" using free_chain_unique [OF m(2) Suc.prems] by simp
    then show False using m(1) by simp
  qed
  then show ?case using Suc.IH [OF tl] by simp
qed

lemma free_chain_in_ws:
  "free_chain W h p n \<Longrightarrow> x \<in> set (chain_cells h p n) \<Longrightarrow> in_ws W x"
  by (induction n arbitrary: p) auto

lemma length_chain_cells [simp]: "length (chain_cells h p n) = n"
  by (induction n arbitrary: p) auto

lemma in_ws_set: "{p. in_ws W p} \<subseteq> obj_addr W ` {..<WORKSPACESIZE}"
  using in_ws_imp by blast

lemma free_chain_bound:
  assumes "free_chain W h p n"
  shows "n \<le> WORKSPACESIZE"
proof -
  have "set (chain_cells h p n) \<subseteq> obj_addr W ` {..<WORKSPACESIZE}"
    using free_chain_in_ws [OF assms] in_ws_set by auto
  then have "card (set (chain_cells h p n)) \<le> card (obj_addr W ` {..<WORKSPACESIZE})"
    by (intro card_mono) auto
  also have "\<dots> \<le> WORKSPACESIZE" using card_image_le [of "{..<WORKSPACESIZE}" "obj_addr W"] by simp
  finally show ?thesis using distinct_card [OF free_chain_distinct [OF assms]] by simp
qed

lemma free_chain_bound_fresh:
  assumes "free_chain W h p n" and "in_ws W x" and "x \<notin> set (chain_cells h p n)"
  shows "Suc n \<le> WORKSPACESIZE"
proof -
  have "insert x (set (chain_cells h p n)) \<subseteq> obj_addr W ` {..<WORKSPACESIZE}"
    using free_chain_in_ws [OF assms(1)] in_ws_set assms(2) by auto
  then have "card (insert x (set (chain_cells h p n))) \<le> card (obj_addr W ` {..<WORKSPACESIZE})"
    by (intro card_mono) auto
  also have "\<dots> \<le> WORKSPACESIZE" using card_image_le [of "{..<WORKSPACESIZE}" "obj_addr W"] by simp
  finally show ?thesis using distinct_card [OF free_chain_distinct [OF assms(1)]] assms(3) by simp
qed

lemma free_chain_upd:
  "x \<notin> set (chain_cells h p n) \<Longrightarrow> free_chain W (h(x := c)) p n = free_chain W h p n"
  by (induction n arbitrary: p) auto

lemma chain_cells_upd:
  "x \<notin> set (chain_cells h p n) \<Longrightarrow> chain_cells (h(x := c)) p n = chain_cells h p n"
  by (induction n arbitrary: p) auto

lemma unat_Freespace_Suc:
  "Suc (unat (f::16 word)) \<le> WORKSPACESIZE \<Longrightarrow> unat (f + 1) = Suc (unat f)"
proof -
  assume "Suc (unat f) \<le> WORKSPACESIZE"
  then have "unat f + unat (1::16 word) < 2 ^ 16" by (simp add: WORKSPACESIZE_def SDSIZE_def)
  then show ?thesis using unat_add_lem [of f 1] by simp
qed

text \<open>One \<open>myfree\<close> of a workspace object that is not on the free list.\<close>

lemma myfree_chain:
  assumes w: "ws_ok W" and inv: "Freespace_inv W s" and x: "in_ws W x" and nx: "\<not> on_Freelist s x"
  shows "Freespace_inv W (myfree x s)"
    and "chain_cells (heap (myfree x s)) (Freelist (myfree x s)) (unat (Freespace (myfree x s)))
         = x # chain_cells (heap s) (Freelist s) (unat (Freespace s))"
proof -
  let ?n = "unat (Freespace s)"
  have fc: "free_chain W (heap s) (Freelist s) ?n" using inv by (simp add: Freespace_inv_def)
  have nx': "x \<notin> set (chain_cells (heap s) (Freelist s) ?n)" using nx by (simp add: on_Freelist_def)
  have n: "unat (Freespace s + 1) = Suc ?n"
    using unat_Freespace_Suc free_chain_bound_fresh [OF fc x nx'] by simp
  show "Freespace_inv W (myfree x s)"
    using fc nx' x in_ws_nonnull [OF w x] n
    by (simp add: Freespace_inv_def myfree_def free_chain_upd)
  show "chain_cells (heap (myfree x s)) (Freelist (myfree x s)) (unat (Freespace (myfree x s)))
         = x # chain_cells (heap s) (Freelist s) (unat (Freespace s))"
    using nx' n by (simp add: myfree_def chain_cells_upd)
qed

section \<open>Properties of the sweep\<close>

lemma obj_addr_neq:
  "i < j \<Longrightarrow> j < WORKSPACESIZE \<Longrightarrow> obj_addr W i \<noteq> obj_addr W j"
  using obj_addr_inj [of i j W] by auto

lemma sweep_loop_outside:
  "(\<And>i. i < k \<Longrightarrow> p \<noteq> obj_addr W i) \<Longrightarrow> heap (sweep_loop W k s) p = heap s p"
proof (induction k arbitrary: s)
  case 0
  then show ?case by simp
next
  case (Suc k)
  have "p \<noteq> obj_addr W k" using Suc.prems [of k] by simp
  moreover have "\<And>i. i < k \<Longrightarrow> p \<noteq> obj_addr W i" using Suc.prems by simp
  ultimately show ?case using Suc.IH
    by (simp add: Let_def myfree_def unmark_def)
qed

lemma sweep_loop_globals:
  "GlobalEnv (sweep_loop W k s) = GlobalEnv s \<and> GCStack (sweep_loop W k s) = GCStack s \<and>
   tee (sweep_loop W k s) = tee s \<and> Context (sweep_loop W k s) = Context s \<and>
   Flags (sweep_loop W k s) = Flags s"
  by (induction k arbitrary: s) (simp_all add: Let_def myfree_def)

lemma sweep_loop_marked:
  "k \<le> WORKSPACESIZE \<Longrightarrow> i < k \<Longrightarrow> marked (heap s) (obj_addr W i) \<Longrightarrow>
   heap (sweep_loop W k s) (obj_addr W i)
     = (heap s (obj_addr W i))\<lparr>car := car (heap s (obj_addr W i)) AND NOT MARKBIT\<rparr>"
proof (induction k arbitrary: s)
  case 0
  then show ?case by simp
next
  case (Suc k)
  show ?case
  proof (cases "i = k")
    case True
    have "\<And>j. j < k \<Longrightarrow> obj_addr W i \<noteq> obj_addr W j"
      using obj_addr_neq [of _ k W] Suc.prems(1) True by fastforce
    then show ?thesis using Suc.prems True
      by (simp add: Let_def sweep_loop_outside unmark_def)
  next
    case False
    then have ik: "i < k" using Suc.prems by simp
    have ne: "obj_addr W i \<noteq> obj_addr W k"
      using obj_addr_neq [of i k W] Suc.prems(1) ik by auto
    show ?thesis using Suc.IH [OF _ ik] Suc.prems ne
      by (simp add: Let_def myfree_def unmark_def marked_def)
  qed
qed

lemma sweep_loop_inv:
  assumes w: "ws_ok W"
  shows "k \<le> WORKSPACESIZE \<Longrightarrow> Freespace_inv W s \<Longrightarrow>
    (\<And>i. i < k \<Longrightarrow> \<not> on_Freelist s (obj_addr W i)) \<Longrightarrow>
    Freespace_inv W (sweep_loop W k s) \<and>
    (\<forall>p. on_Freelist (sweep_loop W k s) p \<longleftrightarrow>
       on_Freelist s p \<or> (\<exists>i<k. p = obj_addr W i \<and> \<not> marked (heap s) p))"
proof (induction k arbitrary: s)
  case 0
  then show ?case by simp
next
  case (Suc k)
  let ?obj = "obj_addr W k"
  let ?s1 = "if \<not> marked (heap s) ?obj then myfree ?obj s else s\<lparr>heap := unmark (heap s) ?obj\<rparr>"
  have kl: "k \<le> WORKSPACESIZE" and kw: "k < WORKSPACESIZE" using Suc.prems(1) by simp_all
  have obj: "in_ws W ?obj" using w kw by (rule obj_addr_in_ws)
  have nobj: "\<not> on_Freelist s ?obj" using Suc.prems(3) [of k] by simp
  have inv1: "Freespace_inv W ?s1"
  proof (cases "marked (heap s) ?obj")
    case True
    have "free_chain W (unmark (heap s) ?obj) (Freelist s) (unat (Freespace s))
        = free_chain W (heap s) (Freelist s) (unat (Freespace s))"
      by (rule free_chain_cdr_cong) (simp add: unmark_def)
    then show ?thesis using True Suc.prems(2) by (simp add: Freespace_inv_def)
  next
    case False
    then show ?thesis using myfree_chain(1) [OF w Suc.prems(2) obj nobj] by simp
  qed
  have on1: "\<And>p. on_Freelist ?s1 p \<longleftrightarrow> on_Freelist s p \<or> (p = ?obj \<and> \<not> marked (heap s) ?obj)"
  proof (cases "marked (heap s) ?obj")
    case True
    have "chain_cells (unmark (heap s) ?obj) (Freelist s) (unat (Freespace s))
        = chain_cells (heap s) (Freelist s) (unat (Freespace s))"
      by (rule chain_cells_cdr_cong) (simp add: unmark_def)
    then show "\<And>p. on_Freelist ?s1 p \<longleftrightarrow> on_Freelist s p \<or> (p = ?obj \<and> \<not> marked (heap s) ?obj)"
      using True by (simp add: on_Freelist_def)
  next
    case False
    show "\<And>p. on_Freelist ?s1 p \<longleftrightarrow> on_Freelist s p \<or> (p = ?obj \<and> \<not> marked (heap s) ?obj)"
      using False myfree_chain(2) [OF w Suc.prems(2) obj nobj]
      by (auto simp: on_Freelist_def)
  qed
  have ne: "\<And>i. i < k \<Longrightarrow> obj_addr W i \<noteq> ?obj"
    using obj_addr_neq [of _ k W] kw by auto
  have pre: "\<And>i. i < k \<Longrightarrow> \<not> on_Freelist ?s1 (obj_addr W i)"
    using on1 Suc.prems(3) ne by (simp only: less_Suc_eq) blast
  have heap1: "\<And>i. i < k \<Longrightarrow> marked (heap ?s1) (obj_addr W i) = marked (heap s) (obj_addr W i)"
    using ne by (simp add: myfree_def unmark_def marked_def)
  have step: "sweep_loop W (Suc k) s = sweep_loop W k ?s1" by (simp add: Let_def)
  from Suc.IH [OF kl inv1 pre]
  have ih1: "Freespace_inv W (sweep_loop W k ?s1)"
    and ih2: "\<And>p. on_Freelist (sweep_loop W k ?s1) p \<longleftrightarrow>
       on_Freelist ?s1 p \<or> (\<exists>i<k. p = obj_addr W i \<and> \<not> marked (heap ?s1) p)" by blast+
  have "\<And>p. on_Freelist (sweep_loop W k ?s1) p \<longleftrightarrow>
       on_Freelist s p \<or> (\<exists>i<Suc k. p = obj_addr W i \<and> \<not> marked (heap s) p)"
    unfolding ih2 on1 using heap1 by (auto simp: less_Suc_eq)
  then show ?case using ih1 unfolding step by blast
qed

section \<open>The free-cell counter\<close>

lemma initworkspace_loop_inv:
  assumes w: "ws_ok W"
  shows "k \<le> WORKSPACESIZE \<Longrightarrow> Freespace_inv W s \<Longrightarrow>
    (\<And>i. i < k \<Longrightarrow> \<not> on_Freelist s (obj_addr W i)) \<Longrightarrow>
    Freespace_inv W (initworkspace_loop W k s)"
proof (induction k arbitrary: s)
  case 0
  then show ?case by simp
next
  case (Suc k)
  let ?obj = "obj_addr W k"
  have kl: "k \<le> WORKSPACESIZE" and kw: "k < WORKSPACESIZE" using Suc.prems(1) by simp_all
  have obj: "in_ws W ?obj" using w kw by (rule obj_addr_in_ws)
  have nobj: "\<not> on_Freelist s ?obj" using Suc.prems(3) [of k] by simp
  have step: "initworkspace_loop W (Suc k) s = initworkspace_loop W k (myfree ?obj s)"
    by (simp add: Let_def myfree_def)
  have ne: "\<And>i. i < k \<Longrightarrow> obj_addr W i \<noteq> ?obj"
    using obj_addr_neq [of _ k W] kw by auto
  have pre: "\<And>i. i < k \<Longrightarrow> \<not> on_Freelist (myfree ?obj s) (obj_addr W i)"
    using myfree_chain(2) [OF w Suc.prems(2) obj nobj] Suc.prems(3) ne
    by (simp add: on_Freelist_def)
  show ?case unfolding step
    by (rule Suc.IH [OF kl myfree_chain(1) [OF w Suc.prems(2) obj nobj] pre])
qed

lemma Freespace_inv_empty: "Freespace s = 0 \<Longrightarrow> Freelist s = 0 \<Longrightarrow> Freespace_inv W s"
  by (simp add: Freespace_inv_def)

lemma initworkspace_inv:
  assumes "ws_ok W" and "Freespace s = 0"
  shows "Freespace_inv W (initworkspace W s)"
  unfolding initworkspace_def
  by (rule initworkspace_loop_inv [OF assms(1)])
     (simp_all add: assms(2) Freespace_inv_def on_Freelist_def)

lemma sweep_inv:
  assumes "ws_ok W"
  shows "Freespace_inv W (sweep W s)"
  unfolding sweep_def
  using sweep_loop_inv [OF assms, of WORKSPACESIZE "s\<lparr>Freelist := 0, Freespace := 0\<rparr>"]
  by (simp add: Freespace_inv_def on_Freelist_def)

lemma Freespace_zero_iff:
  "Freespace_inv W s \<Longrightarrow> (Freespace s = 0) = (Freelist s = 0)"
proof -
  assume inv: "Freespace_inv W s"
  show ?thesis
  proof (cases "unat (Freespace s)")
    case 0
    then have "Freespace s = 0" by (simp add: unat_eq_0)
    then show ?thesis using inv 0 by (simp add: Freespace_inv_def)
  next
    case (Suc n)
    then have "Freespace s \<noteq> 0" by auto
    then show ?thesis using inv Suc by (simp add: Freespace_inv_def)
  qed
qed

lemma unat_minus_1: "(f::16 word) \<noteq> 0 \<Longrightarrow> unat (f - 1) = unat f - 1"
  by (simp add: unat_minus_one)

lemma myalloc_inv:
  assumes inv: "Freespace_inv W s"
  shows "myalloc s = Ok p s' \<Longrightarrow> Freespace_inv W s'"
    and "myalloc s = Err m s' \<Longrightarrow> Freespace_inv W s'"
proof -
  show "myalloc s = Err m s' \<Longrightarrow> Freespace_inv W s'"
    using inv by (auto simp: myalloc_def error2_def errorend_def Freespace_inv_def split: if_splits)
  assume a: "myalloc s = Ok p s'"
  then have nz: "Freespace s \<noteq> 0"
    by (auto simp: myalloc_def error2_def errorend_def split: if_splits)
  then obtain n where n: "unat (Freespace s) = Suc n"
    by (cases "unat (Freespace s)") (auto simp: unat_eq_0)
  have s': "s' = s\<lparr>Freelist := cdr (heap s (Freelist s)), Freespace := Freespace s - 1\<rparr>"
    using a nz by (auto simp: myalloc_def)
  have "unat (Freespace s - 1) = n" using unat_minus_1 [OF nz] n by simp
  then show "Freespace_inv W s'" using inv n by (simp add: s' Freespace_inv_def)
qed

text \<open>
  C9.  The counter \<open>Freespace\<close> equals the number of cells on the chain that starts at
  \<open>Freelist\<close>.  \<open>initworkspace\<close> establishes this from the counter's initial value 0;
  \<open>myalloc\<close> (whether it returns or raises), \<open>myfree\<close> of a workspace object that is not
  on the free list, and \<open>sweep\<close> (from any state) preserve or re-establish it; hence the
  test \<open>Freespace == 0\<close> is the test for an empty free list.
\<close>

theorem Freespace_counts_Freelist:
  assumes "ws_ok W"
  shows "(Freespace s0 = 0 \<longrightarrow> Freespace_inv W (initworkspace W s0)) \<and>
         (Freespace_inv W s \<longrightarrow>
            (\<forall>p s'. myalloc s = Ok p s' \<longrightarrow> Freespace_inv W s') \<and>
            (\<forall>m s'. myalloc s = Err m s' \<longrightarrow> Freespace_inv W s')) \<and>
         (Freespace_inv W s \<and> in_ws W obj \<and> \<not> on_Freelist s obj \<longrightarrow>
            Freespace_inv W (myfree obj s)) \<and>
         Freespace_inv W (sweep W s) \<and>
         (Freespace_inv W s \<longrightarrow> (Freespace s = 0) = (Freelist s = 0))"
  using assms initworkspace_inv myalloc_inv myfree_chain(1) sweep_inv Freespace_zero_iff
  by blast

lemma ws_ok_4000: "ws_ok 0x4000"
  by (simp add: ws_ok_def WORKSPACESIZE_def SDSIZE_def)

lemma in_ws_4004: "in_ws 0x4000 0x4004"
  by (simp add: in_ws_def WORKSPACESIZE_def SDSIZE_def)

lemma in_ws_4000: "in_ws 0x4000 0x4000"
  by (simp add: in_ws_def WORKSPACESIZE_def SDSIZE_def)

lemma one_free_state_inv: "Freespace_inv 0x4000 one_free_state"
  using in_ws_4000
  by (simp add: Freespace_inv_def one_free_state_def boot_state_def empty_memory_def)

lemma one_free_state_myalloc:
  "myalloc one_free_state = Ok 0x4000 boot_state"
  by (simp add: myalloc_def one_free_state_def boot_state_def empty_memory_def)

theorem Freespace_counts_Freelist_witness:
  "Freespace boot_state = 0 \<and> Freespace_inv 0x4000 (initworkspace 0x4000 boot_state) \<and>
   Freespace_inv 0x4000 one_free_state \<and> myalloc one_free_state = Ok 0x4000 boot_state \<and>
   Freespace_inv 0x4000 boot_state \<and>
   in_ws 0x4000 0x4004 \<and> \<not> on_Freelist one_free_state 0x4004 \<and>
   Freespace_inv 0x4000 (myfree 0x4004 one_free_state) \<and>
   Freespace_inv 0x4000 (sweep 0x4000 one_free_state) \<and>
   Freespace one_free_state \<noteq> 0 \<and> Freelist one_free_state \<noteq> 0"
proof -
  have a: "Freespace boot_state = 0" by (simp add: boot_state_def)
  have b: "\<not> on_Freelist one_free_state 0x4004"
    by (simp add: on_Freelist_def one_free_state_def boot_state_def empty_memory_def)
  have c: "Freespace one_free_state \<noteq> 0" by (simp add: one_free_state_def)
  show ?thesis
    using Freespace_counts_Freelist [OF ws_ok_4000, of boot_state one_free_state "0x4004"]
      a b c one_free_state_inv one_free_state_myalloc in_ws_4004
    by simp
qed

text \<open>
  C4.  In a state where the counter agrees with the free list, \<open>myalloc\<close> raises
  \<open>no room\<close> exactly when the free list is empty; otherwise it returns the head of the
  free list, the list loses exactly that cell, and the counter goes down by one without
  wrapping.  \<open>myfree\<close>, in every state, sets \<open>car\<close> of its argument to \<open>NULL\<close>, links the
  cell in front of the old free list, and adds one to the counter; no other object
  changes.
\<close>

theorem myalloc_myfree_contract:
  "(Freespace_inv W s \<longrightarrow>
      (case myalloc s of Err m s' \<Rightarrow> m = ''no room'' | _ \<Rightarrow> False) = (Freelist s = 0) \<and>
      (Freelist s \<noteq> 0 \<longrightarrow>
         (\<exists>s'. myalloc s = Ok (Freelist s) s' \<and>
            (\<forall>q. on_Freelist s' q = (on_Freelist s q \<and> q \<noteq> Freelist s)) \<and>
            Freelist s' = cdr (heap s (Freelist s)) \<and>
            heap s' = heap s \<and>
            Suc (unat (Freespace s')) = unat (Freespace s)))) \<and>
   car (heap (myfree obj t) obj) = 0 \<and>
   cdr (heap (myfree obj t) obj) = Freelist t \<and>
   Freelist (myfree obj t) = obj \<and>
   Freespace (myfree obj t) = Freespace t + 1 \<and>
   (\<forall>q. q \<noteq> obj \<longrightarrow> heap (myfree obj t) q = heap t q)"
proof -
  have free: "car (heap (myfree obj t) obj) = 0 \<and>
     cdr (heap (myfree obj t) obj) = Freelist t \<and>
     Freelist (myfree obj t) = obj \<and>
     Freespace (myfree obj t) = Freespace t + 1 \<and>
     (\<forall>q. q \<noteq> obj \<longrightarrow> heap (myfree obj t) q = heap t q)"
    by (simp add: myfree_def)
  have alloc: "(case myalloc s of Err m s' \<Rightarrow> m = ''no room'' | _ \<Rightarrow> False) = (Freelist s = 0) \<and>
      (Freelist s \<noteq> 0 \<longrightarrow>
         (\<exists>s'. myalloc s = Ok (Freelist s) s' \<and>
            (\<forall>q. on_Freelist s' q = (on_Freelist s q \<and> q \<noteq> Freelist s)) \<and>
            Freelist s' = cdr (heap s (Freelist s)) \<and>
            heap s' = heap s \<and>
            Suc (unat (Freespace s')) = unat (Freespace s)))" if inv: "Freespace_inv W s"
  proof (cases "Freespace s = 0")
    case True
    then show ?thesis using Freespace_zero_iff [OF inv]
      by (simp add: myalloc_def error2_def errorend_def)
  next
    case False
    then obtain n where n: "unat (Freespace s) = Suc n"
      by (cases "unat (Freespace s)") (auto simp: unat_eq_0)
    have nz: "Freelist s \<noteq> 0" using False Freespace_zero_iff [OF inv] by simp
    have m1: "unat (Freespace s - 1) = n" using unat_minus_1 [OF False] n by simp
    have fc: "free_chain W (heap s) (Freelist s) (Suc n)"
      using inv n by (simp add: Freespace_inv_def)
    have "distinct (chain_cells (heap s) (Freelist s) (Suc n))"
      by (rule free_chain_distinct [OF fc])
    then have hd: "Freelist s \<notin> set (chain_cells (heap s) (cdr (heap s (Freelist s))) n)"
      by simp
    let ?s' = "s\<lparr>Freelist := cdr (heap s (Freelist s)), Freespace := Freespace s - 1\<rparr>"
    have a: "myalloc s = Ok (Freelist s) ?s'" using False by (simp add: myalloc_def)
    have b: "\<forall>q. on_Freelist ?s' q = (on_Freelist s q \<and> q \<noteq> Freelist s)"
      using hd n m1 by (auto simp: on_Freelist_def)
    show ?thesis using a b nz n m1 False by simp
  qed
  show ?thesis using free alloc by blast
qed

theorem myalloc_myfree_contract_witness:
  "Freespace_inv 0x4000 one_free_state \<and> Freelist one_free_state \<noteq> 0 \<and>
   \<not> (case myalloc one_free_state of Err m s' \<Rightarrow> m = ''no room'' | _ \<Rightarrow> False) \<and>
   (\<exists>s'. myalloc one_free_state = Ok (Freelist one_free_state) s' \<and>
      Suc (unat (Freespace s')) = unat (Freespace one_free_state)) \<and>
   Freelist (myfree 0x4004 one_free_state) = 0x4004"
proof -
  have nz: "Freelist one_free_state \<noteq> 0" by (simp add: one_free_state_def)
  show ?thesis
    using myalloc_myfree_contract [of "0x4000" one_free_state "0x4004" one_free_state]
      one_free_state_inv nz
    by blast
qed

text \<open>
  C10.  \<open>eq\<close> compares numbers, characters and symbols by their payload (the second
  word of the object), whatever their addresses: two numbers, two characters or two
  symbols are \<open>eq\<close> exactly when their payloads are equal.  Two conses, and two string
  headers, are \<open>eq\<close> exactly when they are the same object.
\<close>

theorem eq_by_payload:
  "(integerp h a1 \<and> integerp h b1 \<longrightarrow> eq_lisp h a1 b1 = (cdr (h a1) = cdr (h b1))) \<and>
   (characterp h a2 \<and> characterp h b2 \<longrightarrow> eq_lisp h a2 b2 = (cdr (h a2) = cdr (h b2))) \<and>
   (symbolp h a3 \<and> symbolp h b3 \<longrightarrow> eq_lisp h a3 b3 = (cdr (h a3) = cdr (h b3))) \<and>
   (consp h a4 \<and> consp h b4 \<longrightarrow> eq_lisp h a4 b4 = (a4 = b4)) \<and>
   (stringp h a5 \<and> stringp h b5 \<longrightarrow> eq_lisp h a5 b5 = (a5 = b5))"
  by (auto simp: eq_lisp_def integerp_def characterp_def symbolp_def consp_def stringp_def
      split: if_splits)


theorem eq_by_payload_witness:
  "eq_lisp eq_memory 0x4000 0x4004 \<and> \<not> eq_lisp eq_memory 0x4000 0x4028 \<and>
   eq_lisp eq_memory 0x4008 0x400C \<and> \<not> eq_lisp eq_memory 0x4008 0x402C \<and>
   eq_lisp eq_memory 0x4010 0x4014 \<and> \<not> eq_lisp eq_memory 0x4010 0x4030 \<and>
   eq_lisp eq_memory 0x4018 0x4018 \<and> \<not> eq_lisp eq_memory 0x4018 0x401C \<and>
   eq_lisp eq_memory 0x4020 0x4020 \<and> \<not> eq_lisp eq_memory 0x4020 0x4024"
proof -
  have n: "integerp eq_memory 0x4000" "integerp eq_memory 0x4004" "integerp eq_memory 0x4028"
    "cdr (eq_memory 0x4000) = 5" "cdr (eq_memory 0x4004) = 5" "cdr (eq_memory 0x4028) = 6"
    by (simp_all add: eq_memory_def integerp_def)
  have c: "characterp eq_memory 0x4008" "characterp eq_memory 0x400C"
    "characterp eq_memory 0x402C"
    "cdr (eq_memory 0x4008) = 97" "cdr (eq_memory 0x400C) = 97" "cdr (eq_memory 0x402C) = 98"
    by (simp_all add: eq_memory_def characterp_def)
  have y: "symbolp eq_memory 0x4010" "symbolp eq_memory 0x4014" "symbolp eq_memory 0x4030"
    "cdr (eq_memory 0x4010) = 0x1235" "cdr (eq_memory 0x4014) = 0x1235"
    "cdr (eq_memory 0x4030) = 0x1239"
    by (simp_all add: eq_memory_def symbolp_def)
  have p: "consp eq_memory 0x4018" "consp eq_memory 0x401C"
    by (simp_all add: eq_memory_def consp_def)
  have g: "stringp eq_memory 0x4020" "stringp eq_memory 0x4024"
    by (simp_all add: eq_memory_def stringp_def)
  show ?thesis
    using eq_by_payload [of eq_memory "0x4000" "0x4004" "0x4008" "0x400C" "0x4010" "0x4014"
        "0x4018" "0x4018" "0x4020" "0x4020"]
      eq_by_payload [of eq_memory "0x4000" "0x4028" "0x4008" "0x402C" "0x4010" "0x4030"
        "0x4018" "0x401C" "0x4020" "0x4024"] n c y p g
    by simp
qed

lemma sint_16_range: "- 32768 \<le> sint (x::16 word) \<and> sint x \<le> 32767"
  using sint_ge [of x] sint_lt [of x] by simp

lemma sint_add_16:
  "int_range (sint (a::16 word) + sint b) \<Longrightarrow> sint (a + b) = sint a + sint b"
  by (simp add: sint_word_add int_range_def signed_take_bit_int_eq_self)

lemma sint_INT_MIN_diff:
  "sint (t::16 word) < 1 \<Longrightarrow> sint (INT_MIN - t) = - 32768 - sint t"
proof -
  assume t: "sint t < 1"
  have m: "sint (INT_MIN :: 16 word) = - 32768" by simp
  have "sint (INT_MIN - t) = signed_take_bit 15 (- 32768 - sint t)"
    by (simp only: sint_word_diff m) simp
  also have "\<dots> = - 32768 - sint t"
    using t sint_16_range [of t] by (intro signed_take_bit_int_eq_self) simp_all
  finally show ?thesis .
qed

lemma sint_INT_MAX_diff:
  "\<not> sint (t::16 word) < 1 \<Longrightarrow> sint (INT_MAX - t) = 32767 - sint t"
proof -
  assume t: "\<not> sint t < 1"
  have m: "sint (INT_MAX :: 16 word) = 32767" by simp
  have "sint (INT_MAX - t) = signed_take_bit 15 (32767 - sint t)"
    by (simp only: sint_word_diff m) simp
  also have "\<dots> = 32767 - sint t"
    using t sint_16_range [of t] by (intro signed_take_bit_int_eq_self) simp_all
  finally show ?thesis .
qed

lemma overflow_test:
  "(if sint (t::16 word) < 1 then sint (r::16 word) < sint (INT_MIN - t)
    else sint (INT_MAX - t) < sint r) = (\<not> int_range (sint r + sint t))"
proof (cases "sint t < 1")
  case True
  then show ?thesis
    using sint_INT_MIN_diff [OF True] sint_16_range [of r] sint_16_range [of t]
    by (auto simp: int_range_def)
next
  case False
  then show ?thesis
    using sint_INT_MAX_diff [OF False] sint_16_range [of r] sint_16_range [of t]
    by (auto simp: int_range_def)
qed

lemma fn_add_loop_step:
  "args \<noteq> 0 \<Longrightarrow> integerp (heap s) (car (heap s args)) \<Longrightarrow>
   fn_add_loop args r s =
     (if \<not> int_range (sint r + integer_of (heap s) (car (heap s args)))
      then Some (error2 ''arithmetic overflow'' s)
      else fn_add_loop (cdr (heap s args)) (r + cdr (heap s (car (heap s args)))) s)"
  by (subst fn_add_loop.simps) (simp add: checkinteger_def overflow_test integer_of_def)

lemma fn_add_loop_sum:
  "lisp_list (heap s) args xs \<Longrightarrow> \<forall>x\<in>set xs. integerp (heap s) x \<Longrightarrow>
   sums_ok (sint r) (map (integer_of (heap s)) xs) \<Longrightarrow>
   \<exists>r'. fn_add_loop args r s = Some (Ok r' s) \<and>
     sint r' = sint r + sum_list (map (integer_of (heap s)) xs)"
proof (induction xs arbitrary: args r)
  case Nil
  then show ?case by (subst fn_add_loop.simps) simp
next
  case (Cons x xs)
  let ?t = "cdr (heap s x)"
  have a: "args \<noteq> 0" "car (heap s args) = x" "lisp_list (heap s) (cdr (heap s args)) xs"
    using Cons.prems(1) by simp_all
  have ix: "integerp (heap s) x" using Cons.prems(2) by simp
  have ex: "integer_of (heap s) x = sint ?t" by (simp add: integer_of_def)
  have "int_range (sint r + integer_of (heap s) x)"
    and "sums_ok (sint r + integer_of (heap s) x) (map (integer_of (heap s)) xs)"
    using Cons.prems(3) by simp_all
  then have rng: "int_range (sint r + sint ?t)"
    and rest: "sums_ok (sint r + sint ?t) (map (integer_of (heap s)) xs)"
    by (simp_all only: ex)
  have st: "sint (r + ?t) = sint r + sint ?t" by (rule sint_add_16 [OF rng])
  from Cons.IH [OF a(3), of "r + ?t"] Cons.prems(2) rest st
  obtain r' where r': "fn_add_loop (cdr (heap s args)) (r + ?t) s = Some (Ok r' s)"
     "sint r' = sint (r + ?t) + sum_list (map (integer_of (heap s)) xs)" by auto
  have "fn_add_loop args r s = Some (Ok r' s)"
    using fn_add_loop_step [OF a(1), of s r] ix a(2) rng r'(1) by (simp add: integer_of_def)
  then show ?case using r'(2) st ex by simp
qed

lemma number_Ok:
  assumes w: "ws_ok W" and inv: "Freespace_inv W s" and nz: "Freespace s \<noteq> 0"
  shows "\<exists>p s'. number n s = Ok p s' \<and> integerp (heap s') p \<and> cdr (heap s' p) = n"
proof -
  obtain k where k: "unat (Freespace s) = Suc k"
    using nz by (cases "unat (Freespace s)") (auto simp: unat_eq_0)
  then have "Freelist s \<noteq> 0" using inv by (simp add: Freespace_inv_def)
  then show ?thesis using nz by (simp add: number_def myalloc_def integerp_def)
qed

text \<open>
  C8.  With two integer arguments whose mathematical sum is outside \<open>[-32768, 32767]\<close>,
  \<open>fn_add\<close> raises \<open>arithmetic overflow\<close>.  With any list of integer arguments whose
  running sums stay in that range it passes the exact sum to \<open>number\<close>; when a free cell
  is available the result is a number object holding that sum.
\<close>

theorem fn_add_overflow_or_exact:
  "(lisp_list (heap s) args [a, b] \<and> integerp (heap s) a \<and> integerp (heap s) b \<and>
      \<not> int_range (integer_of (heap s) a + integer_of (heap s) b) \<longrightarrow>
      fn_add args env s = Some (Err ''arithmetic overflow'' (s\<lparr>GCStack := 0\<rparr>))) \<and>
   (lisp_list (heap t) args' xs \<and> (\<forall>x\<in>set xs. integerp (heap t) x) \<and>
      sums_ok 0 (map (integer_of (heap t)) xs) \<longrightarrow>
      fn_add args' env' t = Some (number (word_of_int (sum_list (map (integer_of (heap t)) xs))) t) \<and>
      (ws_ok W \<and> Freespace_inv W t \<and> Freespace t \<noteq> 0 \<longrightarrow>
         (\<exists>p t'. fn_add args' env' t = Some (Ok p t') \<and> integerp (heap t') p \<and>
            integer_of (heap t') p = sum_list (map (integer_of (heap t)) xs))))"
proof -
  have pair: "fn_add args env s = Some (Err ''arithmetic overflow'' (s\<lparr>GCStack := 0\<rparr>))"
    if l: "lisp_list (heap s) args [a, b]" and ia: "integerp (heap s) a" and ib: "integerp (heap s) b"
      and ov: "\<not> int_range (integer_of (heap s) a + integer_of (heap s) b)"
  proof -
    let ?q = "cdr (heap s args)"
    have a: "args \<noteq> 0" "car (heap s args) = a" "?q \<noteq> 0" "car (heap s ?q) = b"
      using l by simp_all
    have r0: "int_range (sint (0::16 word) + integer_of (heap s) a)"
      using sint_16_range [of "cdr (heap s a)"] by (simp add: int_range_def integer_of_def)
    have 1: "fn_add_loop args 0 s = fn_add_loop ?q (cdr (heap s a)) s"
      using fn_add_loop_step [OF a(1), of s 0] ia a(2) r0 by simp
    have 2: "fn_add_loop ?q (cdr (heap s a)) s = Some (error2 ''arithmetic overflow'' s)"
      using fn_add_loop_step [OF a(3), of s "cdr (heap s a)"] ib a(4) ov
      by (simp add: integer_of_def)
    show ?thesis by (simp add: fn_add_def 1 2 error2_def errorend_def)
  qed
  have exact: "fn_add args' env' t = Some (number (word_of_int (sum_list (map (integer_of (heap t)) xs))) t) \<and>
      (ws_ok W \<and> Freespace_inv W t \<and> Freespace t \<noteq> 0 \<longrightarrow>
         (\<exists>p t'. fn_add args' env' t = Some (Ok p t') \<and> integerp (heap t') p \<and>
            integer_of (heap t') p = sum_list (map (integer_of (heap t)) xs)))"
    if l: "lisp_list (heap t) args' xs" and ix: "\<forall>x\<in>set xs. integerp (heap t) x"
      and ok: "sums_ok 0 (map (integer_of (heap t)) xs)"
  proof -
    let ?v = "sum_list (map (integer_of (heap t)) xs)"
    from fn_add_loop_sum [OF l ix, of 0] ok
    obtain r' where r': "fn_add_loop args' 0 t = Some (Ok r' t)" "sint r' = ?v" by auto
    have "word_of_int (sint r') = r'" by simp
    then have e: "r' = word_of_int ?v" using r'(2) by simp
    have 1: "fn_add args' env' t = Some (number (word_of_int ?v) t)"
      by (simp add: fn_add_def r'(1) e)
    have 2: "\<exists>p t'. fn_add args' env' t = Some (Ok p t') \<and> integerp (heap t') p \<and>
            integer_of (heap t') p = ?v"
      if "ws_ok W" "Freespace_inv W t" "Freespace t \<noteq> 0"
    proof -
      from number_Ok [OF that, of r']
      obtain p t' where "number r' t = Ok p t'" "integerp (heap t') p" "cdr (heap t' p) = r'"
        by blast
      then show ?thesis using r' by (auto simp: fn_add_def integer_of_def)
    qed
    show ?thesis using 1 2 by blast
  qed
  show ?thesis using pair exact by blast
qed

theorem fn_add_overflow_or_exact_witness:
  "lisp_list (heap add_state) 0x4008 [0x4000, 0x4004] \<and>
   integerp (heap add_state) 0x4000 \<and> integerp (heap add_state) 0x4004 \<and>
   integer_of (heap add_state) 0x4000 + integer_of (heap add_state) 0x4004 = 32768 \<and>
   fn_add 0x4008 0 add_state = Some (Err ''arithmetic overflow'' (add_state\<lparr>GCStack := 0\<rparr>)) \<and>
   lisp_list (heap add_state) 0x4010 [0x4004, 0x4004] \<and>
   sums_ok 0 (map (integer_of (heap add_state)) [0x4004, 0x4004]) \<and>
   ws_ok 0x4000 \<and> Freespace_inv 0x4000 add_state \<and> Freespace add_state \<noteq> 0 \<and>
   (\<exists>p t'. fn_add 0x4010 0 add_state = Some (Ok p t') \<and> integerp (heap t') p \<and>
      integer_of (heap t') p = 2)"
proof -
  have 1: "lisp_list (heap add_state) 0x4008 [0x4000, 0x4004]"
    by (simp add: add_state_def empty_memory_def)
  have 2: "integerp (heap add_state) 0x4000 \<and> integerp (heap add_state) 0x4004"
    by (simp add: add_state_def integerp_def)
  have 3: "integer_of (heap add_state) 0x4000 = 32767" "integer_of (heap add_state) 0x4004 = 1"
    by (simp_all add: add_state_def integer_of_def)
  have 4: "\<not> int_range (integer_of (heap add_state) 0x4000 + integer_of (heap add_state) 0x4004)"
    by (simp add: 3 int_range_def)
  have 5: "lisp_list (heap add_state) 0x4010 [0x4004, 0x4004]"
    by (simp add: add_state_def empty_memory_def)
  have 6: "sums_ok 0 (map (integer_of (heap add_state)) [0x4004, 0x4004])"
    by (simp add: 3 int_range_def)
  have 7: "\<forall>x\<in>set [0x4004, 0x4004]. integerp (heap add_state) x" using 2 by simp
  have 8: "Freespace_inv 0x4000 add_state"
    by (simp add: Freespace_inv_def add_state_def boot_state_def empty_memory_def in_ws_def
        WORKSPACESIZE_def SDSIZE_def)
  have 9: "Freespace add_state \<noteq> 0" by (simp add: add_state_def)
  have 10: "sum_list (map (integer_of (heap add_state)) [0x4004, 0x4004]) = 2"
    by (simp add: 3)
  note T = fn_add_overflow_or_exact [of add_state "0x4008" "0x4000" "0x4004" 0 add_state "0x4010"
        "[0x4004, 0x4004]" 0 "0x4000"]
  have ov: "fn_add 0x4008 0 add_state = Some (Err ''arithmetic overflow'' (add_state\<lparr>GCStack := 0\<rparr>))"
    using T 1 2 4 by blast
  have "\<exists>p t'. fn_add 0x4010 0 add_state = Some (Ok p t') \<and> integerp (heap t') p \<and>
      integer_of (heap t') p = sum_list (map (integer_of (heap add_state)) [0x4004, 0x4004])"
    using T 5 6 7 8 9 ws_ok_4000 by blast
  then have ex: "\<exists>p t'. fn_add 0x4010 0 add_state = Some (Ok p t') \<and> integerp (heap t') p \<and>
      integer_of (heap t') p = 2"
    unfolding 10 .
  have s: "integer_of (heap add_state) 0x4000 + integer_of (heap add_state) 0x4004 = 32768"
    by (simp add: 3)
  show ?thesis using 1 2 s ov 5 6 ws_ok_4000 8 9 ex by blast
qed


lemma word8_of_sint [simp]: "(word_of_int (sint (d::8 word)) :: 8 word) = d"
  by simp

lemma sint8_inj: "sint (d::8 word) = sint (e::8 word) \<Longrightarrow> d = e"
  by (metis word8_of_sint)

lemma sint8_eq_num: "sint (d::8 word) = k \<Longrightarrow> d = word_of_int k"
  by (metis word8_of_sint)

lemma terminator_digitvalue:
  "issp (sint (d::8 word)) \<or> isbr (sint d) \<Longrightarrow> digitvalue d = 16"
  by (auto simp: issp_def isbr_def digitvalue_def dest!: sint8_eq_num)

lemma digit_not_terminator:
  "digitvalue d < base \<Longrightarrow> base \<le> 16 \<Longrightarrow> \<not> issp (sint d) \<and> \<not> isbr (sint d)"
  using terminator_digitvalue [of d] by auto

lemma glibrary_next:
  assumes "LastChar s = 0" and "unat (GlobalStringIndex s) < length lib"
    and "lib ! unat (GlobalStringIndex s) = c" and "c \<noteq> 0"
  shows "glibrary lib s = (sint c, s\<lparr>GlobalStringIndex := GlobalStringIndex s + 1\<rparr>)"
  using assms by (simp add: glibrary_def Let_def)

lemma at_input_Cons:
  assumes "at_input lib s (c # txt)"
  shows "glibrary lib s = (sint c, s\<lparr>GlobalStringIndex := GlobalStringIndex s + 1\<rparr>)"
    and "at_input lib (s\<lparr>GlobalStringIndex := GlobalStringIndex s + 1\<rparr>) txt"
proof -
  let ?i = "unat (GlobalStringIndex s)"
  have l: "LastChar s = 0" and c0: "c \<noteq> 0" and z: "0 \<notin> set txt"
    and b: "?i + Suc (length txt) < 32768"
    and t: "take (Suc (length txt)) (drop ?i lib) = c # txt"
    using assms by (auto simp: at_input_def)
  have len: "?i < length lib"
  proof (rule ccontr)
    assume "\<not> ?i < length lib"
    then have "drop ?i lib = []" by simp
    then show False using t by simp
  qed
  have hd: "lib ! ?i = c" and tl: "take (length txt) (drop (Suc ?i) lib) = txt"
    using t len by (simp_all add: Cons_nth_drop_Suc [symmetric])
  show "glibrary lib s = (sint c, s\<lparr>GlobalStringIndex := GlobalStringIndex s + 1\<rparr>)"
    by (rule glibrary_next [OF l len hd c0])
  have "unat (GlobalStringIndex s) + unat (1::16 word) < 2 ^ 16" using b by simp
  then have u: "unat (GlobalStringIndex s + 1) = Suc ?i"
    using unat_add_lem [of "GlobalStringIndex s" 1] by simp
  show "at_input lib (s\<lparr>GlobalStringIndex := GlobalStringIndex s + 1\<rparr>) txt"
    using l z b tl u by (simp add: at_input_def)
qed

definition token_step :: "int \<Rightarrow> 16 word \<Rightarrow> 8 word \<Rightarrow> 16 word" where
  "token_step base r d = r * word_of_int base + word_of_int (digitvalue d)"

lemma foldl_token_step:
  "foldl (token_step base) (word_of_int v) ds
     = word_of_int (foldl (\<lambda>v d. v * base + digitvalue d) v ds)"
proof (induction ds arbitrary: v)
  case Nil
  then show ?case by simp
next
  case (Cons d ds)
  have "token_step base (word_of_int v) d = word_of_int (v * base + digitvalue d)"
    by (simp add: token_step_def)
  then show ?case using Cons.IH [of "v * base + digitvalue d"] by simp
qed

lemma nextitem_token_stop:
  "issp (tok_ch t) \<or> isbr (tok_ch t) \<Longrightarrow> nextitem_token gfun base t s = (t, s)"
  by (subst nextitem_token.simps) auto

lemma nextitem_token_step:
  "\<not> issp ch \<Longrightarrow> \<not> isbr ch \<Longrightarrow> length buf < BUFFERSIZE - 1 \<Longrightarrow>
   gfun s = (ch', s') \<Longrightarrow>
   nextitem_token gfun base
     \<lparr>tok_ch = ch, tok_buffer = buf, tok_result = r, tok_isnumber = n\<rparr> s =
     nextitem_token gfun base
       \<lparr>tok_ch = ch',
        tok_buffer = buf @ [word_of_int ch],
        tok_result = token_step base r (word_of_int ch),
        tok_isnumber = (n \<and> digitvalue (word_of_int ch) < base)\<rparr> s'"
  by (subst nextitem_token.simps) (simp add: Let_def token_step_def)

lemma nextitem_token_digits:
  assumes base: "base \<le> 16" and t: "issp (sint t) \<or> isbr (sint t)"
  shows "at_input lib s (ds @ [t]) \<Longrightarrow> digitvalue d < base \<Longrightarrow>
    \<forall>e\<in>set ds. digitvalue e < base \<Longrightarrow>
    length buf + Suc (length ds) \<le> BUFFERSIZE - 1 \<Longrightarrow>
    nextitem_token (glibrary lib) base
       \<lparr>tok_ch = sint d, tok_buffer = buf, tok_result = r, tok_isnumber = True\<rparr> s
     = (\<lparr>tok_ch = sint t, tok_buffer = buf @ d # ds,
         tok_result = foldl (token_step base) r (d # ds), tok_isnumber = True\<rparr>,
        s\<lparr>GlobalStringIndex := GlobalStringIndex s + of_nat (Suc (length ds))\<rparr>)"
proof (induction ds arbitrary: d buf r s)
  case Nil
  have d: "\<not> issp (sint d)" "\<not> isbr (sint d)"
    using digit_not_terminator [OF Nil.prems(2) base] by simp_all
  have g: "glibrary lib s = (sint t, s\<lparr>GlobalStringIndex := GlobalStringIndex s + 1\<rparr>)"
    using at_input_Cons(1) [of lib s t "[]"] Nil.prems(1) by simp
  have l: "length buf < BUFFERSIZE - 1" using Nil.prems(4) by simp
  show ?case
    using nextitem_token_step [where gfun = "glibrary lib" and s = s and base = base and r = r
        and n = True, OF d l g] Nil.prems(2) t
    by (simp add: nextitem_token_stop)
next
  case (Cons e ds)
  have d: "\<not> issp (sint d)" "\<not> isbr (sint d)"
    using digit_not_terminator [OF Cons.prems(2) base] by simp_all
  let ?s1 = "s\<lparr>GlobalStringIndex := GlobalStringIndex s + 1\<rparr>"
  have g: "glibrary lib s = (sint e, ?s1)" and a1: "at_input lib ?s1 (ds @ [t])"
    using at_input_Cons [of lib s e "ds @ [t]"] Cons.prems(1) by simp_all
  have l: "length buf < BUFFERSIZE - 1" using Cons.prems(4) by simp
  have e: "digitvalue e < base" and es: "\<forall>x\<in>set ds. digitvalue x < base"
    using Cons.prems(3) by simp_all
  have l2: "length (buf @ [d]) + Suc (length ds) \<le> BUFFERSIZE - 1" using Cons.prems(4) by simp
  note ih = Cons.IH [OF a1 e es l2, of "token_step base r d"]
  show ?case
    using nextitem_token_step [where gfun = "glibrary lib" and s = s and base = base and r = r
        and n = True, OF d l g] Cons.prems(2) ih
    by (simp add: add.assoc)
qed

lemma decimal_digit: "digitvalue d < 10 \<Longrightarrow> 48 \<le> sint d \<and> sint d \<le> 57"
  by (auto simp: digitvalue_def Let_def split: if_splits)

lemma digits_value_nonneg:
  "0 \<le> base \<Longrightarrow> 0 \<le> v \<Longrightarrow> 0 \<le> foldl (\<lambda>v d. v * base + digitvalue d) v ds"
proof (induction ds arbitrary: v)
  case Nil
  then show ?case by simp
next
  case (Cons d ds)
  have "0 \<le> digitvalue d" by (auto simp: digitvalue_def Let_def)
  then have "0 \<le> v * base + digitvalue d" using Cons.prems by simp
  then show ?case using Cons.IH [OF Cons.prems(1)] by simp
qed

lemma nextitem_atom_digits:
  assumes base: "base \<le> 16" and t: "issp (sint t) \<or> isbr (sint t)"
    and inp: "at_input lib s (ds @ [t])" and d: "digitvalue d < base"
    and ds: "\<forall>e\<in>set ds. digitvalue e < base"
    and len: "length buf + Suc (length ds) \<le> BUFFERSIZE - 1"
  shows "nextitem_atom (glibrary lib) base sign buf (sint d) s =
     (let v = (word_of_int (digits_value base (d # ds)) :: 16 word);
          s' = consumed s (Suc (length ds)) t
      in if base = 10 \<and> v > INT_MAX + word_of_int ((1 - sign) div 2)
         then error2 ''Number out of range'' s'
         else number (v * word_of_int sign) s')"
proof -
  define S' where "S' = s\<lparr>GlobalStringIndex := GlobalStringIndex s + of_nat (Suc (length ds))\<rparr>"
  define V where "V = (word_of_int (digits_value base (d # ds)) :: 16 word)"
  have l0: "LastChar s = 0" using inp by (simp add: at_input_def)
  have v: "foldl (token_step base) 0 (d # ds) = V"
    using foldl_token_step [of base 0 "d # ds"] by (simp add: digits_value_def V_def)
  have c: "(if isbr (sint t) then S'\<lparr>LastChar := t\<rparr> else S') = consumed s (Suc (length ds)) t"
    using l0 by (simp add: consumed_def S'_def)
  have tk: "nextitem_token (glibrary lib) base
       \<lparr>tok_ch = sint d, tok_buffer = buf, tok_result = 0, tok_isnumber = True\<rparr> s
     = (\<lparr>tok_ch = sint t, tok_buffer = buf @ d # ds, tok_result = V, tok_isnumber = True\<rparr>, S')"
    using nextitem_token_digits [OF base t inp d ds len, of 0] unfolding v S'_def .
  show ?thesis
    unfolding nextitem_atom_def V_def [symmetric]
    using d by (simp add: tk c Let_def split del: if_split cong: if_cong)
qed

lemma nextitem_space_none: "\<not> issp ch \<Longrightarrow> nextitem_space gfun ch s = Some (ch, s)"
  by (subst nextitem_space.simps) simp

lemma consumed_step:
  "LastChar s = 0 \<Longrightarrow>
   consumed (s\<lparr>GlobalStringIndex := GlobalStringIndex s + 1\<rparr>) n t = consumed s (Suc n) t"
  by (simp add: consumed_def add.assoc)

lemma unat_digits_value:
  assumes "0 \<le> v" and "v < 65536"
  shows "unat (word_of_int v :: 16 word) = nat v"
proof -
  have "uint (word_of_int v :: 16 word) = v"
    using assms by (simp add: uint_word_of_int take_bit_int_eq_self)
  then show ?thesis by (simp add: unat_eq_nat_uint)
qed

lemma nextitem_decimal:
  assumes t: "issp (sint t) \<or> isbr (sint t)"
    and inp: "at_input lib s (ds @ [t])" and ds: "digits_of 10 ds" and len: "length ds \<le> 21"
    and v: "digits_value 10 ds < 65536"
  shows "nextitem (glibrary lib) s =
     Some (if 32767 < digits_value 10 ds
           then error2 ''Number out of range'' (consumed s (Suc (length ds)) t)
           else number (word_of_int (digits_value 10 ds)) (consumed s (Suc (length ds)) t))"
proof -
  obtain d ds' where e: "ds = d # ds'" using ds by (cases ds) (auto simp: digits_of_def)
  have d: "digitvalue d < 10" and ds': "\<forall>e\<in>set ds'. digitvalue e < 10"
    using ds e by (auto simp: digits_of_def)
  let ?s1 = "s\<lparr>GlobalStringIndex := GlobalStringIndex s + 1\<rparr>"
  have g: "glibrary lib s = (sint d, ?s1)" and a1: "at_input lib ?s1 (ds' @ [t])"
    using at_input_Cons [of lib s d "ds' @ [t]"] inp e by simp_all
  have l0: "LastChar s = 0" using inp by (simp add: at_input_def)
  have r: "48 \<le> sint d \<and> sint d \<le> 57" by (rule decimal_digit [OF d])
  have sp: "\<not> issp (sint d)" using r by (auto simp: issp_def)
  have len': "length ([]::8 word list) + Suc (length ds') \<le> BUFFERSIZE - 1"
    using len e by (simp add: BUFFERSIZE_def)
  have nn: "0 \<le> digits_value 10 ds"
    unfolding digits_value_def by (rule digits_value_nonneg) simp_all
  have u: "unat (word_of_int (digits_value 10 ds) :: 16 word) = nat (digits_value 10 ds)"
    by (rule unat_digits_value [OF nn v])
  have cmp: "((word_of_int (digits_value 10 ds) :: 16 word) > INT_MAX) = (32767 < digits_value 10 ds)"
    using u nn by (auto simp: word_less_nat_alt)
  have atom: "nextitem_atom (glibrary lib) 10 1 [] (sint d) ?s1 =
     (if 32767 < digits_value 10 ds
           then error2 ''Number out of range'' (consumed s (Suc (length ds)) t)
           else number (word_of_int (digits_value 10 ds)) (consumed s (Suc (length ds)) t))"
    using nextitem_atom_digits [OF _ t a1 d ds' len', of 1] cmp
    by (simp add: Let_def e consumed_step [OF l0])
  show ?thesis
    apply (subst nextitem.simps)
    using r apply (simp add: g nextitem_space_none [OF sp] atom)
    done
qed

lemma nextitem_signed:
  assumes t: "issp (sint t) \<or> isbr (sint t)"
    and inp: "at_input lib s (sg # ds @ [t])" and sg: "sg = 43 \<or> sg = 45"
    and ds: "digits_of 10 ds" and len: "length ds \<le> 20"
    and v: "digits_value 10 ds < 65536"
  shows "nextitem (glibrary lib) s =
     Some (if (if sg = 45 then 32768 else 32767) < digits_value 10 ds
           then error2 ''Number out of range'' (consumed s (Suc (Suc (length ds))) t)
           else number (word_of_int (if sg = 45 then - digits_value 10 ds else digits_value 10 ds))
                  (consumed s (Suc (Suc (length ds))) t))"
proof -
  obtain d ds' where e: "ds = d # ds'" using ds by (cases ds) (auto simp: digits_of_def)
  have d: "digitvalue d < 10" and ds': "\<forall>e\<in>set ds'. digitvalue e < 10"
    using ds e by (auto simp: digits_of_def)
  define s1 where "s1 = s\<lparr>GlobalStringIndex := GlobalStringIndex s + 1\<rparr>"
  define s2 where "s2 = s1\<lparr>GlobalStringIndex := GlobalStringIndex s1 + 1\<rparr>"
  have g1: "glibrary lib s = (sint sg, s1)" and a1: "at_input lib s1 (d # ds' @ [t])"
    using at_input_Cons [of lib s sg "ds @ [t]"] inp e by (simp_all add: s1_def)
  have g2: "glibrary lib s1 = (sint d, s2)" and a2: "at_input lib s2 (ds' @ [t])"
    using at_input_Cons [OF a1] by (simp_all add: s2_def)
  have l0: "LastChar s = 0" using inp by (simp add: at_input_def)
  have sgv: "sint sg = 43 \<or> sint sg = 45" using sg by auto
  have sp: "\<not> issp (sint sg)" using sgv by (auto simp: issp_def)
  have len': "length [sg] + Suc (length ds') \<le> BUFFERSIZE - 1"
    using len e by (simp add: BUFFERSIZE_def)
  have nn: "0 \<le> digits_value 10 ds"
    unfolding digits_value_def by (rule digits_value_nonneg) simp_all
  have u: "unat (word_of_int (digits_value 10 ds) :: 16 word) = nat (digits_value 10 ds)"
    by (rule unat_digits_value [OF nn v])
  have cmp1: "((word_of_int (digits_value 10 ds) :: 16 word) > INT_MAX) = (32767 < digits_value 10 ds)"
    using u nn by (auto simp: word_less_nat_alt)
  have cmp2: "((word_of_int (digits_value 10 ds) :: 16 word) > 0x8000) = (32768 < digits_value 10 ds)"
    using u nn by (auto simp: word_less_nat_alt)
  have c: "consumed s2 (Suc (length ds')) t = consumed s (Suc (Suc (length ds))) t"
    using l0 by (simp add: consumed_def e s1_def s2_def ac_simps)
  have atom: "nextitem_atom (glibrary lib) 10 (if sg = 45 then - 1 else 1) [sg] (sint d) s2 =
     (if (if sg = 45 then 32768 else 32767) < digits_value 10 ds
           then error2 ''Number out of range'' (consumed s (Suc (Suc (length ds))) t)
           else number (word_of_int (if sg = 45 then - digits_value 10 ds else digits_value 10 ds))
                  (consumed s (Suc (Suc (length ds))) t))"
  proof (cases "sg = 45")
    case True
    show ?thesis
      using nextitem_atom_digits [OF _ t a2 d ds' len', of "- 1"] cmp2 True
      by (simp add: Let_def e [symmetric] c)
  next
    case False
    show ?thesis
      using nextitem_atom_digits [OF _ t a2 d ds' len', of 1] cmp1 False
      by (simp add: Let_def e [symmetric] c)
  qed
  show ?thesis
  proof (cases "sg = 45")
    case True
    have g1': "glibrary lib s = (45, s1)" using g1 True by simp
    have sp': "\<not> issp 45" by (simp add: issp_def)
    show ?thesis
      apply (subst nextitem.simps)
      apply (simp only: g1' prod.case nextitem_space_none [OF sp'] Option.bind.simps)
      using atom True apply (simp add: g2)
      done
  next
    case False
    then have sg43: "sg = 43" using sg by simp
    have g1': "glibrary lib s = (43, s1)" using g1 sg43 by simp
    have sp': "\<not> issp 43" by (simp add: issp_def)
    show ?thesis
      apply (subst nextitem.simps)
      apply (simp only: g1' prod.case nextitem_space_none [OF sp'] Option.bind.simps)
      using atom sg43 apply (simp add: g2)
      done
  qed
qed

lemma radix_of_cases:
  "radix_of x \<noteq> 0 \<Longrightarrow>
   sint x \<noteq> 92 \<and> sint x \<noteq> 124 \<and> radix_of x \<le> 16 \<and> radix_of x \<noteq> 10 \<and>
   (radix_of x = 2 \<and> x AND NOT 0x20 = 66 \<or>
    radix_of x = 8 \<and> x AND NOT 0x20 = 79 \<and> x AND NOT 0x20 \<noteq> 66 \<or>
    radix_of x = 16 \<and> x AND NOT 0x20 = 88 \<and> x AND NOT 0x20 \<noteq> 66 \<and> x AND NOT 0x20 \<noteq> 79)"
  by (auto simp: radix_of_def Let_def dest!: sint8_eq_num split: if_splits)

lemma nextitem_radix:
  assumes t: "issp (sint t) \<or> isbr (sint t)"
    and inp: "at_input lib s (35 # x # ds @ [t])" and x: "radix_of x \<noteq> 0"
    and ds: "digits_of (radix_of x) ds" and len: "length ds \<le> 21"
  shows "nextitem (glibrary lib) s =
     Some (number (word_of_int (digits_value (radix_of x) ds))
                  (consumed s (Suc (Suc (Suc (length ds)))) t))"
proof -
  let ?b = "radix_of x"
  obtain d ds' where e: "ds = d # ds'" using ds by (cases ds) (auto simp: digits_of_def)
  have d: "digitvalue d < ?b" and ds': "\<forall>e\<in>set ds'. digitvalue e < ?b"
    using ds e by (auto simp: digits_of_def)
  define s1 where "s1 = s\<lparr>GlobalStringIndex := GlobalStringIndex s + 1\<rparr>"
  define s2 where "s2 = s1\<lparr>GlobalStringIndex := GlobalStringIndex s1 + 1\<rparr>"
  define s3 where "s3 = s2\<lparr>GlobalStringIndex := GlobalStringIndex s2 + 1\<rparr>"
  have g1: "glibrary lib s = (35, s1)" and a1: "at_input lib s1 (x # d # ds' @ [t])"
    using at_input_Cons [of lib s 35 "x # ds @ [t]"] inp e by (simp_all add: s1_def)
  have g2: "glibrary lib s1 = (sint x, s2)" and a2: "at_input lib s2 (d # ds' @ [t])"
    using at_input_Cons [OF a1] by (simp_all add: s2_def)
  have g3: "glibrary lib s2 = (sint d, s3)" and a3: "at_input lib s3 (ds' @ [t])"
    using at_input_Cons [OF a2] by (simp_all add: s3_def)
  have l0: "LastChar s = 0" using inp by (simp add: at_input_def)
  note rc = radix_of_cases [OF x]
  have b16: "?b \<le> 16" and b10: "?b \<noteq> 10" using rc by simp_all
  have sp: "\<not> issp 35" by (simp add: issp_def)
  have len': "length ([]::8 word list) + Suc (length ds') \<le> BUFFERSIZE - 1"
    using len e by (simp add: BUFFERSIZE_def)
  have c: "consumed s3 (Suc (length ds')) t = consumed s (Suc (Suc (Suc (length ds)))) t"
    using l0 by (simp add: consumed_def e s1_def s2_def s3_def ac_simps)
  have atom: "nextitem_atom (glibrary lib) ?b 1 [] (sint d) s3 =
     number (word_of_int (digits_value ?b ds)) (consumed s (Suc (Suc (Suc (length ds)))) t)"
    using nextitem_atom_digits [OF b16 t a3 d ds' len', of 1] b10
    by (simp add: Let_def e [symmetric] c)
  have n92: "sint x \<noteq> 92" and n124: "sint x \<noteq> 124" using rc by simp_all
  have step: "nextitem (glibrary lib) s =
     (let ch2 = x AND NOT 0x20 in
      if ch2 = 66 then Some (nextitem_atom (glibrary lib) 2 1 [] (sint d) s3)
      else if ch2 = 79 then Some (nextitem_atom (glibrary lib) 8 1 [] (sint d) s3)
      else if ch2 = 88 then Some (nextitem_atom (glibrary lib) 16 1 [] (sint d) s3)
      else None)"
    apply (subst nextitem.simps)
    apply (simp only: g1 prod.case nextitem_space_none [OF sp] Option.bind.simps)
    using rc apply (simp add: g2 g3 n92 n124 Let_def split del: if_split cong: if_cong)
    apply auto
    done
  from rc have "radix_of x = 2 \<and> x AND NOT 0x20 = 66 \<or>
    radix_of x = 8 \<and> x AND NOT 0x20 = 79 \<and> x AND NOT 0x20 \<noteq> 66 \<or>
    radix_of x = 16 \<and> x AND NOT 0x20 = 88 \<and> x AND NOT 0x20 \<noteq> 66 \<and> x AND NOT 0x20 \<noteq> 79"
    by blast
  then show ?thesis
  proof (elim disjE conjE)
    assume "radix_of x = 2" "x AND NOT 0x20 = 66"
    then show ?thesis using atom by (simp add: step Let_def)
  next
    assume "radix_of x = 8" "x AND NOT 0x20 = 79" "x AND NOT 0x20 \<noteq> 66"
    then show ?thesis using atom by (simp add: step Let_def)
  next
    assume "radix_of x = 16" "x AND NOT 0x20 = 88" "x AND NOT 0x20 \<noteq> 66" "x AND NOT 0x20 \<noteq> 79"
    then show ?thesis using atom by (simp add: step Let_def)
  qed
qed

lemma nextitem_decimal_word:
  assumes t: "issp (sint t) \<or> isbr (sint t)"
    and inp: "at_input lib s (ds @ [t])" and ds: "digits_of 10 ds" and len: "length ds \<le> 21"
  shows "nextitem (glibrary lib) s =
     Some (if (word_of_int (digits_value 10 ds) :: 16 word) > INT_MAX
           then error2 ''Number out of range'' (consumed s (Suc (length ds)) t)
           else number (word_of_int (digits_value 10 ds)) (consumed s (Suc (length ds)) t))"
proof -
  obtain d ds' where e: "ds = d # ds'" using ds by (cases ds) (auto simp: digits_of_def)
  have d: "digitvalue d < 10" and ds': "\<forall>e\<in>set ds'. digitvalue e < 10"
    using ds e by (auto simp: digits_of_def)
  define s1 where "s1 = s\<lparr>GlobalStringIndex := GlobalStringIndex s + 1\<rparr>"
  have g: "glibrary lib s = (sint d, s1)" and a1: "at_input lib s1 (ds' @ [t])"
    using at_input_Cons [of lib s d "ds' @ [t]"] inp e by (simp_all add: s1_def)
  have l0: "LastChar s = 0" using inp by (simp add: at_input_def)
  have r: "48 \<le> sint d \<and> sint d \<le> 57" by (rule decimal_digit [OF d])
  have sp: "\<not> issp (sint d)" using r by (auto simp: issp_def)
  have len': "length ([]::8 word list) + Suc (length ds') \<le> BUFFERSIZE - 1"
    using len e by (simp add: BUFFERSIZE_def)
  have c: "consumed s1 (Suc (length ds')) t = consumed s (Suc (length ds)) t"
    using l0 by (simp add: consumed_def e s1_def ac_simps)
  have atom: "nextitem_atom (glibrary lib) 10 1 [] (sint d) s1 =
     (if (word_of_int (digits_value 10 ds) :: 16 word) > INT_MAX
           then error2 ''Number out of range'' (consumed s (Suc (length ds)) t)
           else number (word_of_int (digits_value 10 ds)) (consumed s (Suc (length ds)) t))"
    using nextitem_atom_digits [OF _ t a1 d ds' len', of 1]
    by (simp add: Let_def e [symmetric] c)
  show ?thesis
    apply (subst nextitem.simps)
    using r apply (simp add: g nextitem_space_none [OF sp] atom)
    done
qed

text \<open>
  C7 (as amended).  A token of digits that is followed by white space or a bracket and
  fits the token buffer is read as follows.  In base 10, when the digits denote a value
  below 65536: a value above 32767 (above 32768 after a minus sign) raises
  \<open>Number out of range\<close>, and any other value is passed to \<open>number\<close> with its sign.  After
  \<open>#b\<close>, \<open>#o\<close> or \<open>#x\<close> (either case) no range error is raised: the value is passed to
  \<open>number\<close> reduced modulo 65536.
\<close>

theorem nextitem_number:
  assumes "issp (sint t) \<or> isbr (sint t)"
  shows
   "(at_input lib s (ds @ [t]) \<and> digits_of 10 ds \<and> length ds \<le> 21 \<and>
       digits_value 10 ds < 65536 \<longrightarrow>
     nextitem (glibrary lib) s =
       Some (if 32767 < digits_value 10 ds
             then error2 ''Number out of range'' (consumed s (Suc (length ds)) t)
             else number (word_of_int (digits_value 10 ds)) (consumed s (Suc (length ds)) t))) \<and>
    (at_input lib s (sg # ds @ [t]) \<and> (sg = 43 \<or> sg = 45) \<and> digits_of 10 ds \<and>
       length ds \<le> 20 \<and> digits_value 10 ds < 65536 \<longrightarrow>
     nextitem (glibrary lib) s =
       Some (if (if sg = 45 then 32768 else 32767) < digits_value 10 ds
             then error2 ''Number out of range'' (consumed s (Suc (Suc (length ds))) t)
             else number (word_of_int (if sg = 45 then - digits_value 10 ds else digits_value 10 ds))
                    (consumed s (Suc (Suc (length ds))) t))) \<and>
    (at_input lib s (35 # x # ds @ [t]) \<and> radix_of x \<noteq> 0 \<and> digits_of (radix_of x) ds \<and>
       length ds \<le> 21 \<longrightarrow>
     nextitem (glibrary lib) s =
       Some (number (word_of_int (digits_value (radix_of x) ds))
               (consumed s (Suc (Suc (Suc (length ds)))) t)))"
  using nextitem_decimal [OF assms] nextitem_signed [OF assms] nextitem_radix [OF assms]
  by blast

lemma at_input_one_free:
  "0 \<notin> set txt \<Longrightarrow> length txt < 32768 \<Longrightarrow> take (length txt) lib = txt \<Longrightarrow>
   at_input lib one_free_state txt"
  by (simp add: at_input_def one_free_state_def boot_state_def)

theorem nextitem_number_witness:
  "nextitem (glibrary (map of_char ''123 '')) one_free_state
     = Some (number 123 (consumed one_free_state 4 32)) \<and>
   nextitem (glibrary (map of_char ''-32768)'')) one_free_state
     = Some (number (- 32768) (consumed one_free_state 7 41)) \<and>
   nextitem (glibrary (map of_char ''-32769 '')) one_free_state
     = Some (error2 ''Number out of range'' (consumed one_free_state 7 32)) \<and>
   nextitem (glibrary (map of_char ''#b101 '')) one_free_state
     = Some (number 5 (consumed one_free_state 6 32))"
proof -
  have sp: "issp (sint (32::8 word)) \<or> isbr (sint (32::8 word))" by (simp add: issp_def)
  have br: "issp (sint (41::8 word)) \<or> isbr (sint (41::8 word))" by (simp add: isbr_def)
  have 1: "at_input (map of_char ''123 '') one_free_state (map of_char ''123'' @ [32])"
    by (rule at_input_one_free) simp_all
  have d1: "digits_of 10 (map of_char ''123'')" "digits_value 10 (map of_char ''123'') = 123"
    by (simp_all add: digits_of_def digits_value_def digitvalue_def)
  have 2: "at_input (map of_char ''-32768)'') one_free_state (45 # map of_char ''32768'' @ [41])"
    by (rule at_input_one_free) simp_all
  have d2: "digits_of 10 (map of_char ''32768'')" "digits_value 10 (map of_char ''32768'') = 32768"
    by (simp_all add: digits_of_def digits_value_def digitvalue_def)
  have 3: "at_input (map of_char ''-32769 '') one_free_state (45 # map of_char ''32769'' @ [32])"
    by (rule at_input_one_free) simp_all
  have d3: "digits_of 10 (map of_char ''32769'')" "digits_value 10 (map of_char ''32769'') = 32769"
    by (simp_all add: digits_of_def digits_value_def digitvalue_def)
  have 4: "at_input (map of_char ''#b101 '') one_free_state (35 # 98 # map of_char ''101'' @ [32])"
    by (rule at_input_one_free) simp_all
  have r4: "radix_of 98 = 2" by (simp add: radix_of_def)
  have d4: "digits_of 2 (map of_char ''101'')" "digits_value 2 (map of_char ''101'') = 5"
    by (simp_all add: digits_of_def digits_value_def digitvalue_def)
  have a: "nextitem (glibrary (map of_char ''123 '')) one_free_state
     = Some (number 123 (consumed one_free_state 4 32))"
    using nextitem_number [OF sp, where lib = "map of_char ''123 ''" and s = one_free_state
        and ds = "map of_char ''123''"] 1 d1
    by (simp add: consumed_def)
  have b: "nextitem (glibrary (map of_char ''-32768)'')) one_free_state
     = Some (number (- 32768) (consumed one_free_state 7 41))"
    using nextitem_number [OF br, where lib = "map of_char ''-32768)''" and s = one_free_state
        and sg = 45 and ds = "map of_char ''32768''"] 2 d2
    by (simp add: consumed_def)
  have c: "nextitem (glibrary (map of_char ''-32769 '')) one_free_state
     = Some (error2 ''Number out of range'' (consumed one_free_state 7 32))"
    using nextitem_number [OF sp, where lib = "map of_char ''-32769 ''" and s = one_free_state
        and sg = 45 and ds = "map of_char ''32769''"] 3 d3
    by (simp add: consumed_def)
  have d: "nextitem (glibrary (map of_char ''#b101 '')) one_free_state
     = Some (number 5 (consumed one_free_state 6 32))"
    using nextitem_number [OF sp, where lib = "map of_char ''#b101 ''" and s = one_free_state
        and x = 98 and ds = "map of_char ''101''"] 4 d4 r4
    by (simp add: consumed_def)
  show ?thesis using a b c d by blast
qed

theorem nextitem_no_range_error:
  "digits_value 16 (map of_char ''FFFF'') = 65535 \<and>
   (\<exists>p s'. nextitem (glibrary (map of_char ''#xFFFF '')) one_free_state = Some (Ok p s') \<and>
      integerp (heap s') p \<and> integer_of (heap s') p = - 1) \<and>
   digits_value 10 (map of_char ''65536'') = 65536 \<and>
   (\<exists>p s'. nextitem (glibrary (map of_char ''65536 '')) one_free_state = Some (Ok p s') \<and>
      integerp (heap s') p \<and> integer_of (heap s') p = 0)"
proof -
  have sp: "issp (sint (32::8 word)) \<or> isbr (sint (32::8 word))" by (simp add: issp_def)
  have 1: "at_input (map of_char ''#xFFFF '') one_free_state (35 # 120 # map of_char ''FFFF'' @ [32])"
    by (rule at_input_one_free) simp_all
  have r1: "radix_of 120 = 16" by (simp add: radix_of_def)
  have d1: "digits_of 16 (map of_char ''FFFF'')" "digits_value 16 (map of_char ''FFFF'') = 65535"
    by (simp_all add: digits_of_def digits_value_def digitvalue_def)
  have n1: "nextitem (glibrary (map of_char ''#xFFFF '')) one_free_state
      = Some (number 0xFFFF (consumed one_free_state 7 32))"
    using nextitem_radix [OF sp 1] r1 d1 by (simp add: consumed_def)
  have 2: "at_input (map of_char ''65536 '') one_free_state (map of_char ''65536'' @ [32])"
    by (rule at_input_one_free) simp_all
  have d2: "digits_of 10 (map of_char ''65536'')" "digits_value 10 (map of_char ''65536'') = 65536"
    by (simp_all add: digits_of_def digits_value_def digitvalue_def)
  have z: "(65536::16 word) = 0" by simp
  have n2: "nextitem (glibrary (map of_char ''65536 '')) one_free_state
      = Some (number 0 (consumed one_free_state 6 32))"
    using nextitem_decimal_word [OF sp 2 d2(1)] d2(2) by (simp add: consumed_def z)
  have e1: "\<exists>p s'. number 0xFFFF (consumed one_free_state 7 32) = Ok p s' \<and>
      integerp (heap s') p \<and> integer_of (heap s') p = - 1"
    by (simp add: number_def myalloc_def consumed_def one_free_state_def boot_state_def
        integerp_def integer_of_def)
  have e2: "\<exists>p s'. number 0 (consumed one_free_state 6 32) = Ok p s' \<and>
      integerp (heap s') p \<and> integer_of (heap s') p = 0"
    by (simp add: number_def myalloc_def consumed_def one_free_state_def boot_state_def
        integerp_def integer_of_def)
  show ?thesis using d1(2) d2(2) n1 n2 e1 e2 by simp
qed


section \<open>Mark phase\<close>

definition longsymbolp :: "memory \<Rightarrow> ptr \<Rightarrow> bool" where
  "longsymbolp h x = (cdr (h x) AND 0x03 = 0)"

lemma or1_and1 [simp]: "((x::16 word) OR 1) AND 1 = 1"
  by (simp add: bit_eq_iff bit_simps) 

lemma marked_mark_iff [simp]: "marked (mark h x) y = (y = x \<or> marked h y)"
  by (simp add: marked_def mark_def)

lemma marked_imp_unaligned: "(c::16 word) AND 1 \<noteq> 0 \<Longrightarrow> c AND 3 \<noteq> 0"
proof
  assume a: "c AND 1 \<noteq> 0" and b: "c AND 3 = 0"
  have "c AND 1 = (c AND 3) AND 1" by (simp add: and.assoc)
  then show False using a b by simp
qed

lemma marked_car_not_in_ws: "marked h x \<Longrightarrow> \<not> in_ws W (car (h x))"
  using marked_imp_unaligned [of "car (h x)"] by (simp add: marked_def in_ws_def)

definition unmarked_cells :: "ptr \<Rightarrow> memory \<Rightarrow> ptr set" where
  "unmarked_cells W h = {p. in_ws W p \<and> \<not> marked h p}"

lemma finite_in_ws: "finite {p. in_ws W p}"
  using finite_subset [OF in_ws_set] by simp

lemma finite_unmarked_cells [simp]: "finite (unmarked_cells W h)"
  using finite_subset [of "unmarked_cells W h" "{p. in_ws W p}"] finite_in_ws
  by (auto simp: unmarked_cells_def)

lemma unmarked_cells_mark:
  "in_ws W x \<Longrightarrow> \<not> marked h x \<Longrightarrow> card (unmarked_cells W (mark h x)) < card (unmarked_cells W h)"
proof -
  assume x: "in_ws W x" "\<not> marked h x"
  have "unmarked_cells W (mark h x) = unmarked_cells W h - {x}"
    by (auto simp: unmarked_cells_def)
  moreover have "x \<in> unmarked_cells W h" using x by (simp add: unmarked_cells_def)
  ultimately show ?thesis using card_Diff1_less [of "unmarked_cells W h" x] by simp
qed

lemma unmarked_cells_mark_le:
  "card (unmarked_cells W (mark h x)) \<le> card (unmarked_cells W h)"
  by (rule card_mono) (auto simp: unmarked_cells_def)

text \<open>
  The loop of \<open>markobject\<close> over the cells of a string or of a long symbol name.  It
  has no \<open>marked\<close> test: on a cell that is already marked the link it reads carries the
  mark bit.  Dereferencing an address that is not an object of \<open>Workspace\<close> is undefined
  behaviour: \<open>None\<close>.
\<close>

function markchain :: "ptr \<Rightarrow> ptr \<Rightarrow> memory \<Rightarrow> memory option" where
  "markchain W obj h =
     (if obj = 0 then Some h
      else if \<not> in_ws W obj then None
      else let arg = car (h obj) in markchain W arg (mark h obj))"
  by pat_completeness auto
termination
proof (relation "measures [\<lambda>(W, obj, h). card (unmarked_cells W h),
                           \<lambda>(W, obj, h). if in_ws W obj then 1 else 0]")
  show "wf (measures [\<lambda>(W, obj, h). card (unmarked_cells W h),
                      \<lambda>(W, obj, h). if in_ws W obj then 1 else 0])" by simp
next
  fix W obj :: ptr and h :: memory and x
  assume a: "obj \<noteq> 0" "\<not> \<not> in_ws W obj" "x = car (h obj)"
  show "((W, x, mark h obj), W, obj, h)
        \<in> measures [\<lambda>(W, obj, h). card (unmarked_cells W h),
                     \<lambda>(W, obj, h). if in_ws W obj then 1 else 0]"
  proof (cases "marked h obj")
    case True
    then have "\<not> in_ws W x" using a(3) marked_car_not_in_ws by simp
    then show ?thesis using a(2) unmarked_cells_mark_le [of W h obj] by auto
  next
    case False
    then show ?thesis using a(2) unmarked_cells_mark [of W obj h] by simp
  qed
qed

declare markchain.simps [simp del]

lemma markchain_marks: "markchain W obj h = Some h' \<Longrightarrow> marked h p \<Longrightarrow> marked h' p"
proof (induction W obj h rule: markchain.induct)
  case (1 W obj h)
  show ?case
  proof (cases "obj = 0 \<or> \<not> in_ws W obj")
    case True
    then show ?thesis using "1.prems" by (subst (asm) markchain.simps) (auto split: if_splits)
  next
    case False
    then have "markchain W (car (h obj)) (mark h obj) = Some h'"
      using "1.prems"(1) by (subst (asm) markchain.simps) (simp add: Let_def)
    then show ?thesis using "1.IH" [of "car (h obj)"] False "1.prems"(2) by simp
  qed
qed

text \<open>\<open>markobject\<close>.  The recursive call marks \<open>car\<close>; the jump to \<open>MARK\<close> continues with \<open>cdr\<close>.\<close>

function markobject :: "ptr \<Rightarrow> ptr \<Rightarrow> memory \<Rightarrow> memory option" where
  "markobject W obj h =
     (if obj = 0 then Some h
      else if \<not> in_ws W obj then None
      else if marked h obj then Some h
      else
        let arg = car (h obj); type = car (h obj); h1 = mark h obj in
        if PAIR \<le> type \<or> type = ZZERO then
          (case markobject W arg h1 of
             None \<Rightarrow> None
           | Some h2 \<Rightarrow> markobject W (cdr (h2 obj)) h2)
        else if type = ARRAY then markobject W (cdr (h1 obj)) h1
        else if type = STRING \<or> (type = SYMBOL \<and> longsymbolp h1 obj) then
          markchain W (cdr (h1 obj)) h1
        else Some h1)"
  by pat_completeness auto

lemma markobject_marks_partial:
  "markobject_dom (W, obj, h) \<Longrightarrow> markobject W obj h = Some h' \<Longrightarrow>
   marked h p \<Longrightarrow> marked h' p"
proof (induction W obj h arbitrary: h' rule: markobject.pinduct)
  case (1 W obj h)
  note ps = markobject.psimps [OF "1.hyps"]
  show ?case
  proof (cases "obj = 0 \<or> \<not> in_ws W obj \<or> marked h obj")
    case True
    then show ?thesis using "1.prems" ps by (auto split: if_splits)
  next
    case False
    let ?h1 = "mark h obj"
    have m1: "marked ?h1 p" using "1.prems"(2) by simp
    consider (cons) "PAIR \<le> car (h obj) \<or> car (h obj) = ZZERO"
      | (array) "\<not> (PAIR \<le> car (h obj) \<or> car (h obj) = ZZERO)" "car (h obj) = ARRAY"
      | (chain) "\<not> (PAIR \<le> car (h obj) \<or> car (h obj) = ZZERO)" "car (h obj) \<noteq> ARRAY"
          "car (h obj) = STRING \<or> (car (h obj) = SYMBOL \<and> longsymbolp ?h1 obj)"
      | (scalar) "\<not> (PAIR \<le> car (h obj) \<or> car (h obj) = ZZERO)" "car (h obj) \<noteq> ARRAY"
          "\<not> (car (h obj) = STRING \<or> (car (h obj) = SYMBOL \<and> longsymbolp ?h1 obj))"
      by blast
    then show ?thesis
    proof cases
      case cons
      from "1.prems"(1) False cons obtain h2 where
        h2: "markobject W (car (h obj)) ?h1 = Some h2" "markobject W (cdr (h2 obj)) h2 = Some h'"
        by (auto simp: ps Let_def split: option.splits)
      have "marked h2 p"
        using "1.IH"(1) [OF _ _ _ refl refl refl cons h2(1) m1] False by simp
      then show ?thesis
        using "1.IH"(2) [OF _ _ _ refl refl refl cons h2(1) h2(2)] False by simp
    next
      case array
      from "1.prems"(1) False array have "markobject W (cdr (?h1 obj)) ?h1 = Some h'"
        by (auto simp: ps Let_def)
      then show ?thesis
        using "1.IH"(3) [OF _ _ _ refl refl refl array(1) array(2) _ m1] False by simp
    next
      case chain
      from "1.prems"(1) False chain have "markchain W (cdr (?h1 obj)) ?h1 = Some h'"
        by (auto simp: ps Let_def)
      then show ?thesis using markchain_marks m1 by blast
    next
      case scalar
      from "1.prems"(1) False scalar have "h' = ?h1" by (auto simp: ps Let_def)
      then show ?thesis using m1 by simp
    qed
  qed
qed

termination markobject
proof (relation "measure (\<lambda>(W, obj, h). card (unmarked_cells W h))")
  show "wf (measure (\<lambda>(W, obj, h). card (unmarked_cells W h)))" by simp
next
  fix W obj :: ptr and h :: memory and x xa xb
  assume "obj \<noteq> 0" "\<not> \<not> in_ws W obj" "\<not> marked h obj" "x = car (h obj)" "xa = car (h obj)"
    "xb = mark h obj" "PAIR \<le> xa \<or> xa = ZZERO"
  then show "((W, x, xb), W, obj, h) \<in> measure (\<lambda>(W, obj, h). card (unmarked_cells W h))"
    using unmarked_cells_mark [of W obj h] by simp
next
  fix W obj :: ptr and h :: memory and x xa xb x2
  assume a: "obj \<noteq> 0" "\<not> \<not> in_ws W obj" "\<not> marked h obj" "x = car (h obj)" "xa = car (h obj)"
    "xb = mark h obj" "PAIR \<le> xa \<or> xa = ZZERO" "markobject W x xb = Some x2"
    "markobject_dom (W, x, xb)"
  have "unmarked_cells W x2 \<subseteq> unmarked_cells W xb"
    using markobject_marks_partial [OF a(9) a(8)] by (auto simp: unmarked_cells_def)
  then have "card (unmarked_cells W x2) \<le> card (unmarked_cells W xb)"
    by (intro card_mono) simp_all
  then show "((W, cdr (x2 obj), x2), W, obj, h) \<in> measure (\<lambda>(W, obj, h). card (unmarked_cells W h))"
    using unmarked_cells_mark [of W obj h] a by simp
next
  fix W obj :: ptr and h :: memory and x xa xb
  assume "obj \<noteq> 0" "\<not> \<not> in_ws W obj" "\<not> marked h obj" "x = car (h obj)" "xa = car (h obj)"
    "xb = mark h obj" "\<not> (PAIR \<le> xa \<or> xa = ZZERO)" "xa = ARRAY"
  then show "((W, cdr (xb obj), xb), W, obj, h) \<in> measure (\<lambda>(W, obj, h). card (unmarked_cells W h))"
    using unmarked_cells_mark [of W obj h] by simp
qed

declare markobject.simps [simp del]

definition gc :: "ptr \<Rightarrow> ptr \<Rightarrow> ptr \<Rightarrow> lisp_state \<Rightarrow> lisp_state option" where
  "gc W form env s =
     Option.bind (markobject W (tee s) (heap s)) (\<lambda>h1.
     Option.bind (markobject W (GlobalEnv s) h1) (\<lambda>h2.
     Option.bind (markobject W (GCStack s) h2) (\<lambda>h3.
     Option.bind (markobject W form h3) (\<lambda>h4.
     Option.bind (markobject W env h4) (\<lambda>h5.
     Some (sweep W (s\<lparr>heap := h5\<rparr>)))))))"

text \<open>
  The heap after \<open>(defvar blin (trace blin))\<close>: \<open>sp_trace\<close> returns a list of fresh symbol
  objects made by \<open>symbol(TraceFn[i])\<close>, so the new symbol at \<open>0x4014\<close> has the same name
  cells (\<open>0x4018\<close>, \<open>0x401C\<close>) as the interned symbol at \<open>0x400C\<close>.  \<open>0x4000\<close> is \<open>t\<close>.
\<close>

definition shared_name_state :: lisp_state where
  "shared_name_state = boot_state
     \<lparr>heap := empty_memory
        (0x4000 := \<lparr>car = SYMBOL, cdr = 0xE807\<rparr>,
         0x4004 := \<lparr>car = 0x4008, cdr = 0\<rparr>,
         0x4008 := \<lparr>car = 0x400C, cdr = 0x4010\<rparr>,
         0x400C := \<lparr>car = SYMBOL, cdr = 0x4018\<rparr>,
         0x4010 := \<lparr>car = 0x4014, cdr = 0\<rparr>,
         0x4014 := \<lparr>car = SYMBOL, cdr = 0x4018\<rparr>,
         0x4018 := \<lparr>car = 0x401C, cdr = 0x626C\<rparr>,
         0x401C := \<lparr>car = 0, cdr = 0x696E\<rparr>),
      tee := 0x4000, GlobalEnv := 0x4004\<rparr>"


text \<open>
  C1 fails on a heap the interpreter builds.  In \<open>shared_name_state\<close> every object is
  reachable from \<open>GlobalEnv\<close> and every pointer is the address of an object, but two
  symbols share their name cells.  The first symbol marks the name cells; at the second
  one the loop over the name cells reads the marked link \<open>0x401D\<close> of the cell at
  \<open>0x4018\<close> and dereferences it.  \<open>gc\<close> has no defined result (\<open>None\<close>), although marking
  from \<open>tee\<close> and from the first symbol alone succeeds.
\<close>

theorem gc_shared_name_undefined:
  "gc 0x4000 0 0 shared_name_state = None \<and>
   in_ws 0x4000 0x4018 \<and> \<not> in_ws 0x4000 0x401D \<and>
   markobject 0x4000 (tee shared_name_state) (heap shared_name_state) \<noteq> None \<and>
   markobject 0x4000 0x400C (heap shared_name_state) \<noteq> None \<and>
   markobject 0x4000 0x4014 (heap shared_name_state) \<noteq> None \<and>
   (case markobject 0x4000 0x400C (heap shared_name_state) of
      None \<Rightarrow> False
    | Some h \<Rightarrow> car (h 0x4018) = 0x401D \<and> markobject 0x4000 0x4014 h = None)"
  by (simp add: gc_def shared_name_state_def boot_state_def empty_memory_def
      markobject.simps markchain.simps mark_def marked_def in_ws_def longsymbolp_def
      WORKSPACESIZE_def SDSIZE_def Let_def)


section \<open>Symbols and built-in names\<close>




abbreviation (input) FUNCTIONS :: "8 word" where "FUNCTIONS \<equiv> 2"












section \<open>Making objects\<close>

definition cons :: "ptr \<Rightarrow> ptr \<Rightarrow> lisp_state \<Rightarrow> ptr result" where
  "cons arg1 arg2 s =
     (case myalloc s of
        Err m s' \<Rightarrow> Err m s'
      | Unmodelled u \<Rightarrow> Unmodelled u
      | Ok p s1 \<Rightarrow> Ok p (s1\<lparr>heap := (heap s1)(p := \<lparr>car = arg1, cdr = arg2\<rparr>)\<rparr>))"

definition symbol :: "16 word \<Rightarrow> lisp_state \<Rightarrow> ptr result" where
  "symbol name s =
     (case myalloc s of
        Err m s' \<Rightarrow> Err m s'
      | Unmodelled u \<Rightarrow> Unmodelled u
      | Ok p s1 \<Rightarrow> Ok p (s1\<lparr>heap := (heap s1)(p := \<lparr>car = SYMBOL, cdr = name\<rparr>)\<rparr>))"



section \<open>Evaluator\<close>




































section \<open>Programs in the workspace\<close>











































section \<open>\<open>let\<close> and \<open>let*\<close>\<close>


















end

